theory Spec2Isabelle
  imports Complex_Main
begin

section \<open>The dense linear-algebra kernel of Glass (qr.hpp, pseudoinverse.cpp)\<close>

text \<open>
  The source represents a matrix as \<^verbatim>\<open>std::vector<std::vector<double>>\<close> and raises
  C++ exceptions. In this development

  \<^item> a \<^verbatim>\<open>double\<close> is the \<^typ>\<open>real\<close> it denotes. The functions named as in the
    source compute in exact real arithmetic; the functions \<open>..._rnd\<close> are the same code
    with every arithmetic operation passed through a rounding function, and with
    \<open>fl\<close>, rounding to the nearest double, they compute what the doubles compute
    (as long as nothing overflows; infinities and NaN are not modelled);
  \<^item> a vector is a list and a matrix a list of rows;
  \<^item> every operation returns \<open>error + result\<close>; the constructors of \<open>error\<close> are the
    four exceptions the source throws, named after their meaning, and \<open>OutOfBounds\<close>,
    which stands for an \<^verbatim>\<open>operator[]\<close> outside the bounds of a vector (the C++ has
    no defined behaviour there, and throws nothing);
  \<^item> a \<^verbatim>\<open>for\<close> loop is \<open>forM\<close> over the list of its indices, threading the
    variables the loop body assigns.
\<close>

subsection \<open>Results, checked indexing and loops\<close>

datatype error =
    DimensionMismatch   \<comment> \<open>\<^verbatim>\<open>std::invalid_argument("Dimensiones incompatibles")\<close>\<close>
  | NonSquareMatrix     \<comment> \<open>\<^verbatim>\<open>std::runtime_error("La matriz debe ser cuadrada para invertirla")\<close>\<close>
  | SingularMatrix      \<comment> \<open>\<^verbatim>\<open>std::runtime_error("Matriz singular, no se puede invertir")\<close>\<close>
  | SingularSystem      \<comment> \<open>\<^verbatim>\<open>std::runtime_error("Matriz singular en solve_qr")\<close>\<close>
  | OutOfBounds         \<comment> \<open>an index outside a vector: undefined in C++\<close>

type_synonym vec = "real list"
type_synonym matrix = "real list list"

definition bnd :: "error + 'a \<Rightarrow> ('a \<Rightarrow> error + 'b) \<Rightarrow> error + 'b" where
  "bnd r f = (case r of Inl e \<Rightarrow> Inl e | Inr x \<Rightarrow> f x)"

fun forM :: "nat list \<Rightarrow> (nat \<Rightarrow> 's \<Rightarrow> error + 's) \<Rightarrow> 's \<Rightarrow> error + 's" where
  "forM [] body s = Inr s"
| "forM (i # is) body s = bnd (body i s) (forM is body)"

text \<open>The literal \<^verbatim>\<open>1e-12\<close> of both singularity tests.\<close>

definition eps12 :: real where
  "eps12 = 1 / 10 ^ 12"

definition rd :: "'a list \<Rightarrow> nat \<Rightarrow> error + 'a" where
  "rd xs i = (if i < length xs then Inr (xs ! i) else Inl OutOfBounds)"

definition wr :: "'a list \<Rightarrow> nat \<Rightarrow> 'a \<Rightarrow> error + 'a list" where
  "wr xs i v = (if i < length xs then Inr (xs[i := v]) else Inl OutOfBounds)"

definition rd2 :: "'a list list \<Rightarrow> nat \<Rightarrow> nat \<Rightarrow> error + 'a" where
  "rd2 A i j = bnd (rd A i) (\<lambda>row. rd row j)"

definition wr2 :: "'a list list \<Rightarrow> nat \<Rightarrow> nat \<Rightarrow> 'a \<Rightarrow> error + 'a list list" where
  "wr2 A i j v = bnd (rd A i) (\<lambda>row. bnd (wr row j v) (\<lambda>row'. wr A i row'))"

subsection \<open>MatrixOps (qr.hpp)\<close>

text \<open>\<^verbatim>\<open>identity(n)\<close>: an n-by-n matrix of zeros, then the diagonal set to one.\<close>

definition identity :: "nat \<Rightarrow> error + matrix" where
  "identity n = forM [0..<n] (\<lambda>i I. wr2 I i i 1) (replicate n (replicate n 0))"

text \<open>
  \<^verbatim>\<open>transpose(A)\<close> reads \<^verbatim>\<open>A[0].size()\<close> before anything else. The same function
  is repeated as a static helper in pseudoinverse.cpp.
\<close>

definition transpose_m :: "matrix \<Rightarrow> error + matrix" where
  "transpose_m A =
     bnd (rd A 0) (\<lambda>a0.
       let m = length A; n = length a0 in
       forM [0..<m] (\<lambda>i B.
         forM [0..<n] (\<lambda>j B. bnd (rd2 A i j) (\<lambda>a. wr2 B j i a)) B)
         (replicate n (replicate m 0)))"

text \<open>
  \<^verbatim>\<open>matmul(A, B)\<close> of qr.hpp: the inner dimension is \<^verbatim>\<open>A[0].size()\<close>; the sizes of
  \<open>A\<close> and \<open>B\<close> are not compared.
\<close>

definition matmul :: "matrix \<Rightarrow> matrix \<Rightarrow> error + matrix" where
  "matmul A B =
     bnd (rd A 0) (\<lambda>a0. bnd (rd B 0) (\<lambda>b0.
       let m = length A; n = length a0; p = length b0 in
       forM [0..<m] (\<lambda>i C.
         forM [0..<n] (\<lambda>k C.
           bnd (rd2 A i k) (\<lambda>a.
             forM [0..<p] (\<lambda>j C.
               bnd (rd2 C i j) (\<lambda>c. bnd (rd2 B k j) (\<lambda>b. wr2 C i j (c + a * b)))) C)) C)
         (replicate m (replicate p 0))))"

text \<open>
  \<^verbatim>\<open>multiply(A, B)\<close> of pseudoinverse.cpp: the inner dimension is \<^verbatim>\<open>B.size()\<close>, and
  a zero entry of \<open>A\<close> skips its row of \<open>B\<close>. Again no sizes are compared.
\<close>

definition multiply :: "matrix \<Rightarrow> matrix \<Rightarrow> error + matrix" where
  "multiply A B =
     bnd (rd B 0) (\<lambda>b0.
       let m = length A; n = length b0; inner = length B in
       forM [0..<m] (\<lambda>i C.
         forM [0..<inner] (\<lambda>k C.
           bnd (rd2 A i k) (\<lambda>a.
             if a \<noteq> 0 then
               forM [0..<n] (\<lambda>j C.
                 bnd (rd2 C i j) (\<lambda>c. bnd (rd2 B k j) (\<lambda>b. wr2 C i j (c + a * b)))) C
             else Inr C)) C)
         (replicate m (replicate n 0)))"

subsection \<open>HouseholderQR (qr.hpp)\<close>

text \<open>The accumulation \<^verbatim>\<open>for (double v : x) s += v * v\<close>, used for every norm.\<close>

definition sumsq :: "vec \<Rightarrow> real" where
  "sumsq xs = foldl (\<lambda>s v. s + v * v) 0 xs"

text \<open>
  The two update loops of \<^verbatim>\<open>householder_reflect\<close>: columns \<open>col..n-1\<close> of \<open>A\<close>, rows
  \<open>start..\<close>, and then every row of \<open>Q\<close>, columns \<open>start..\<close>. Each computes the
  projection on \<open>v\<close>, doubles it, and subtracts.
\<close>

definition reflect_A :: "vec \<Rightarrow> nat \<Rightarrow> nat \<Rightarrow> nat \<Rightarrow> matrix \<Rightarrow> error + matrix" where
  "reflect_A v start col n A =
     forM [col..<n] (\<lambda>j A.
       bnd (forM [0..<length v] (\<lambda>k proj.
              bnd (rd v k) (\<lambda>vk. bnd (rd2 A (start + k) j) (\<lambda>a. Inr (proj + vk * a)))) 0)
         (\<lambda>proj. let proj = proj * 2 in
            forM [0..<length v] (\<lambda>k A.
              bnd (rd2 A (start + k) j) (\<lambda>a. bnd (rd v k) (\<lambda>vk.
                wr2 A (start + k) j (a - proj * vk)))) A)) A"

definition reflect_Q :: "vec \<Rightarrow> nat \<Rightarrow> matrix \<Rightarrow> error + matrix" where
  "reflect_Q v start Q =
     forM [0..<length Q] (\<lambda>j Q.
       bnd (forM [0..<length v] (\<lambda>k proj.
              bnd (rd v k) (\<lambda>vk. bnd (rd2 Q j (start + k)) (\<lambda>q. Inr (proj + vk * q)))) 0)
         (\<lambda>proj. let proj = proj * 2 in
            forM [0..<length v] (\<lambda>k Q.
              bnd (rd2 Q j (start + k)) (\<lambda>q. bnd (rd v k) (\<lambda>vk.
                wr2 Q j (start + k) (q - proj * vk)))) Q)) Q"

text \<open>
  \<^verbatim>\<open>householder_reflect(A, Q, start, col)\<close> mutates \<open>A\<close> and \<open>Q\<close>; the model returns
  both. The size \<^verbatim>\<open>m - start\<close> of \<open>x\<close> is unsigned: for \<open>start > m\<close> it wraps around
  and no such vector can be allocated.
\<close>

definition householder_reflect :: "matrix \<Rightarrow> matrix \<Rightarrow> nat \<Rightarrow> nat \<Rightarrow> error + matrix \<times> matrix" where
  "householder_reflect A Q start col =
     (let m = length A in
      if m < start then Inl OutOfBounds else
      bnd (forM [start..<m] (\<lambda>i x. bnd (rd2 A i col) (\<lambda>a. wr x (i - start) a))
             (replicate (m - start) 0)) (\<lambda>x.
      let norm_x = sqrt (sumsq x) in
      if norm_x = 0 then Inr (A, Q) else
      bnd (rd x 0) (\<lambda>x0.
      bnd (wr x 0 (x0 + (if x0 \<ge> 0 then norm_x else - norm_x))) (\<lambda>v.
      let norm_v = sqrt (sumsq v) in
      if norm_v = 0 then Inr (A, Q) else
      let v = map (\<lambda>t. t / norm_v) v in
      bnd (rd A 0) (\<lambda>a0.
      bnd (reflect_A v start col (length a0) A) (\<lambda>A.
      bnd (reflect_Q v start Q) (\<lambda>Q.
      Inr (A, Q))))))))"

text \<open>The loop of \<^verbatim>\<open>qr_decompose\<close> that sets the strict lower triangle of \<open>R\<close> to zero.\<close>

definition zero_lower :: "nat \<Rightarrow> nat \<Rightarrow> matrix \<Rightarrow> error + matrix" where
  "zero_lower m n R =
     forM [0..<m] (\<lambda>i R. forM [0..<min i n] (\<lambda>j R. wr2 R i j 0) R) R"

text \<open>
  \<^verbatim>\<open>qr_decompose(A_in, Q, R)\<close> returns through its reference parameters; the model
  returns the pair \<open>(Q, R)\<close>.
\<close>

definition qr_decompose :: "matrix \<Rightarrow> error + matrix \<times> matrix" where
  "qr_decompose A_in =
     bnd (rd A_in 0) (\<lambda>a0.
       let m = length A_in; n = length a0 in
       bnd (identity m) (\<lambda>Q.
       let min_dim = (if m < n then m else n) in
       bnd (forM [0..<min_dim] (\<lambda>col (R, Q). householder_reflect R Q col col) (A_in, Q))
         (\<lambda>(R, Q).
       bnd (zero_lower m n R) (\<lambda>R.
       bnd (transpose_m Q) (\<lambda>Q.
       Inr (Q, R))))))"

subsection \<open>LeastSquaresSolver (qr.hpp)\<close>

definition solve_qr :: "matrix \<Rightarrow> matrix \<Rightarrow> vec \<Rightarrow> error + vec" where
  "solve_qr Q R b =
     bnd (rd R 0) (\<lambda>r0.
       let m = length Q; n = length r0 in
       if length b \<noteq> m then Inl DimensionMismatch else
       bnd (forM [0..<m] (\<lambda>i y.
              forM [0..<m] (\<lambda>j y.
                bnd (rd y i) (\<lambda>yi. bnd (rd2 Q j i) (\<lambda>q. bnd (rd b j) (\<lambda>bj.
                  wr y i (yi + q * bj))))) y)
              (replicate m 0)) (\<lambda>y.
       forM (rev [0..<n]) (\<lambda>i x.
         bnd (forM [Suc i..<n] (\<lambda>j sum.
                bnd (rd2 R i j) (\<lambda>r. bnd (rd x j) (\<lambda>xj. Inr (sum + r * xj)))) 0) (\<lambda>sum.
         bnd (rd y i) (\<lambda>yi.
         let val = yi - sum in
         bnd (rd2 R i i) (\<lambda>diag.
         if \<bar>diag\<bar> < eps12 then Inl SingularSystem
         else wr x i (val / diag)))))
         (replicate n 0)))"

subsection \<open>GaussJordanInverter (pseudoinverse.cpp)\<close>

text \<open>The augmented matrix \<open>[A | I]\<close>, filled row by row.\<close>

definition augment :: "nat \<Rightarrow> matrix \<Rightarrow> error + matrix" where
  "augment n A =
     forM [0..<n] (\<lambda>i aug.
       bnd (forM [0..<n] (\<lambda>j aug. bnd (rd2 A i j) (\<lambda>a. wr2 aug i j a)) aug) (\<lambda>aug.
       forM [0..<n] (\<lambda>j aug. wr2 aug i (n + j) (if i = j then 1 else 0)) aug))
       (replicate n (replicate (2 * n) 0))"

text \<open>Pivot selection: a strict comparison, so the first row of largest magnitude wins.\<close>

definition select_pivot :: "nat \<Rightarrow> nat \<Rightarrow> matrix \<Rightarrow> error + nat" where
  "select_pivot n i aug =
     forM [i..<n] (\<lambda>r pivot.
       bnd (rd2 aug r i) (\<lambda>a. bnd (rd2 aug pivot i) (\<lambda>b.
         Inr (if \<bar>a\<bar> > \<bar>b\<bar> then r else pivot)))) i"

text \<open>\<^verbatim>\<open>std::swap(aug[pivot], aug[i])\<close>.\<close>

definition swap_rows :: "nat \<Rightarrow> nat \<Rightarrow> matrix \<Rightarrow> error + matrix" where
  "swap_rows p i aug =
     bnd (rd aug p) (\<lambda>rp. bnd (rd aug i) (\<lambda>ri.
       bnd (wr aug p ri) (\<lambda>aug. wr aug i rp)))"

definition normalize_row :: "nat \<Rightarrow> nat \<Rightarrow> matrix \<Rightarrow> error + matrix" where
  "normalize_row n i aug =
     bnd (rd2 aug i i) (\<lambda>diag.
       forM [0..<2 * n] (\<lambda>j aug. bnd (rd2 aug i j) (\<lambda>a. wr2 aug i j (a / diag))) aug)"

definition eliminate_rows :: "nat \<Rightarrow> nat \<Rightarrow> matrix \<Rightarrow> error + matrix" where
  "eliminate_rows n i aug =
     forM [0..<n] (\<lambda>r aug.
       if r = i then Inr aug else
       bnd (rd2 aug r i) (\<lambda>factor.
         if factor \<noteq> 0 then
           forM [0..<2 * n] (\<lambda>j aug.
             bnd (rd2 aug r j) (\<lambda>a. bnd (rd2 aug i j) (\<lambda>b.
               wr2 aug r j (a - factor * b)))) aug
         else Inr aug)) aug"

text \<open>One iteration of the elimination loop, for pivot column \<open>i\<close>.\<close>

definition gj_step :: "nat \<Rightarrow> nat \<Rightarrow> matrix \<Rightarrow> error + matrix" where
  "gj_step n i aug =
     bnd (select_pivot n i aug) (\<lambda>pivot.
     bnd (rd2 aug pivot i) (\<lambda>p.
     if \<bar>p\<bar> < eps12 then Inl SingularMatrix else
     bnd (if pivot \<noteq> i then swap_rows pivot i aug else Inr aug) (\<lambda>aug.
     bnd (normalize_row n i aug) (\<lambda>aug.
     eliminate_rows n i aug))))"

definition extract_inverse :: "nat \<Rightarrow> matrix \<Rightarrow> error + matrix" where
  "extract_inverse n aug =
     forM [0..<n] (\<lambda>i inv.
       forM [0..<n] (\<lambda>j inv. bnd (rd2 aug i (n + j)) (\<lambda>a. wr2 inv i j a)) inv)
       (replicate n (replicate n 0))"

text \<open>
  \<^verbatim>\<open>inverse(A)\<close>. The guard compares only the first row's size with the number of
  rows, and rejects the empty matrix with the same exception.
\<close>

definition inverse_m :: "matrix \<Rightarrow> error + matrix" where
  "inverse_m A =
     (let n = length A in
      if A = [] \<or> length (A ! 0) \<noteq> n then Inl NonSquareMatrix else
      bnd (augment n A) (\<lambda>aug.
      bnd (forM [0..<n] (gj_step n) aug) (\<lambda>aug.
      extract_inverse n aug)))"

subsection \<open>PseudoinverseEngine and ConditionEstimator (pseudoinverse.cpp)\<close>

definition pseudoinverse :: "matrix \<Rightarrow> error + matrix" where
  "pseudoinverse A =
     (let m = length A; n = (if A = [] then 0 else length (A ! 0)) in
      if m = 0 \<or> n = 0 then Inr [] else
      bnd (transpose_m A) (\<lambda>AT.
      if m \<ge> n then
        bnd (multiply AT A) (\<lambda>ATA.
        bnd (inverse_m ATA) (\<lambda>ATA_inv.
        multiply ATA_inv AT))
      else
        bnd (multiply A AT) (\<lambda>AAT.
        bnd (inverse_m AAT) (\<lambda>AAT_inv.
        multiply AT AAT_inv))))"

definition frobenius_norm :: "matrix \<Rightarrow> real" where
  "frobenius_norm A = sqrt (foldl (\<lambda>sum row. foldl (\<lambda>sum v. sum + v * v) sum row) 0 A)"

definition condition_number :: "matrix \<Rightarrow> error + real" where
  "condition_number A =
     bnd (pseudoinverse A) (\<lambda>pinv.
       let normA = frobenius_norm A; normInv = frobenius_norm pinv in
       Inr (normA * normInv))"

subsection \<open>Double-precision arithmetic\<close>

text \<open>The number of binary digits of a natural number.\<close>

fun bits :: "nat \<Rightarrow> nat" where
  "bits n = (if n = 0 then 0 else Suc (bits (n div 2)))"

text \<open>Powers of two with an integer exponent.\<close>

definition pow2 :: "int \<Rightarrow> real" where
  "pow2 e = (if 0 \<le> e then 2 ^ nat e else 1 / 2 ^ nat (- e))"

text \<open>The nearest integer, a tie going to the even one.\<close>

definition round_even :: "real \<Rightarrow> int" where
  "round_even r =
     (let f = \<lfloor>r\<rfloor>; d = r - of_int f in
      if d < 1 / 2 then f else if 1 / 2 < d then f + 1
      else if even f then f else f + 1)"

text \<open>The integer \<open>k\<close> with \<open>2^k \<le> a < 2^(k+1)\<close>, for positive \<open>a\<close>.\<close>

definition ilog2 :: "real \<Rightarrow> int" where
  "ilog2 a = (if 1 \<le> a then int (bits (nat \<lfloor>a\<rfloor>)) - 1
              else - int (bits (nat \<lceil>1 / a\<rceil> - 1)))"

text \<open>
  IEEE 754 binary64, round to nearest, ties to even: the significand has 53 bits, so a
  number of binary exponent \<open>k\<close> is rounded to a multiple of \<open>2^(k-52)\<close>, and to a
  multiple of \<open>2^(-1074)\<close> in the subnormal range. The exponent has no upper bound
  here: overflow to infinity is not modelled.
\<close>

definition fl :: "real \<Rightarrow> real" where
  "fl x = (if x = 0 then 0 else
           let e = max (ilog2 \<bar>x\<bar> - 52) (- 1074) in
           of_int (round_even (x / pow2 e)) * pow2 e)"

text \<open>
  The arithmetic of \<^verbatim>\<open>matmul\<close>, \<^verbatim>\<open>multiply\<close>, \<^verbatim>\<open>inverse\<close> and \<^verbatim>\<open>pseudoinverse\<close>
  once more, the result of every \<open>+\<close>, \<open>-\<close>, \<open>*\<close> and \<open>/\<close> rounded by \<open>rnd\<close> (each
  operation on its own: no fused multiply-add), and the literal \<^verbatim>\<open>1e-12\<close> rounded
  too. Pivot selection, row swaps, copies and comparisons do no arithmetic and are
  shared with the exact functions.
\<close>

definition matmul_rnd :: "(real \<Rightarrow> real) \<Rightarrow> matrix \<Rightarrow> matrix \<Rightarrow> error + matrix" where
  "matmul_rnd rnd A B =
     bnd (rd A 0) (\<lambda>a0. bnd (rd B 0) (\<lambda>b0.
       let m = length A; n = length a0; p = length b0 in
       forM [0..<m] (\<lambda>i C.
         forM [0..<n] (\<lambda>k C.
           bnd (rd2 A i k) (\<lambda>a.
             forM [0..<p] (\<lambda>j C.
               bnd (rd2 C i j) (\<lambda>c. bnd (rd2 B k j) (\<lambda>b.
                 wr2 C i j (rnd (c + rnd (a * b)))))) C)) C)
         (replicate m (replicate p 0))))"

definition multiply_rnd :: "(real \<Rightarrow> real) \<Rightarrow> matrix \<Rightarrow> matrix \<Rightarrow> error + matrix" where
  "multiply_rnd rnd A B =
     bnd (rd B 0) (\<lambda>b0.
       let m = length A; n = length b0; inner = length B in
       forM [0..<m] (\<lambda>i C.
         forM [0..<inner] (\<lambda>k C.
           bnd (rd2 A i k) (\<lambda>a.
             if a \<noteq> 0 then
               forM [0..<n] (\<lambda>j C.
                 bnd (rd2 C i j) (\<lambda>c. bnd (rd2 B k j) (\<lambda>b.
                   wr2 C i j (rnd (c + rnd (a * b)))))) C
             else Inr C)) C)
         (replicate m (replicate n 0)))"

definition normalize_row_rnd :: "(real \<Rightarrow> real) \<Rightarrow> nat \<Rightarrow> nat \<Rightarrow> matrix \<Rightarrow> error + matrix" where
  "normalize_row_rnd rnd n i aug =
     bnd (rd2 aug i i) (\<lambda>diag.
       forM [0..<2 * n] (\<lambda>j aug. bnd (rd2 aug i j) (\<lambda>a. wr2 aug i j (rnd (a / diag)))) aug)"

definition eliminate_rows_rnd :: "(real \<Rightarrow> real) \<Rightarrow> nat \<Rightarrow> nat \<Rightarrow> matrix \<Rightarrow> error + matrix" where
  "eliminate_rows_rnd rnd n i aug =
     forM [0..<n] (\<lambda>r aug.
       if r = i then Inr aug else
       bnd (rd2 aug r i) (\<lambda>factor.
         if factor \<noteq> 0 then
           forM [0..<2 * n] (\<lambda>j aug.
             bnd (rd2 aug r j) (\<lambda>a. bnd (rd2 aug i j) (\<lambda>b.
               wr2 aug r j (rnd (a - rnd (factor * b)))))) aug
         else Inr aug)) aug"

definition gj_step_rnd :: "(real \<Rightarrow> real) \<Rightarrow> nat \<Rightarrow> nat \<Rightarrow> matrix \<Rightarrow> error + matrix" where
  "gj_step_rnd rnd n i aug =
     bnd (select_pivot n i aug) (\<lambda>pivot.
     bnd (rd2 aug pivot i) (\<lambda>p.
     if \<bar>p\<bar> < rnd eps12 then Inl SingularMatrix else
     bnd (if pivot \<noteq> i then swap_rows pivot i aug else Inr aug) (\<lambda>aug.
     bnd (normalize_row_rnd rnd n i aug) (\<lambda>aug.
     eliminate_rows_rnd rnd n i aug))))"

definition inverse_rnd :: "(real \<Rightarrow> real) \<Rightarrow> matrix \<Rightarrow> error + matrix" where
  "inverse_rnd rnd A =
     (let n = length A in
      if A = [] \<or> length (A ! 0) \<noteq> n then Inl NonSquareMatrix else
      bnd (augment n A) (\<lambda>aug.
      bnd (forM [0..<n] (gj_step_rnd rnd n) aug) (\<lambda>aug.
      extract_inverse n aug)))"

definition pseudoinverse_rnd :: "(real \<Rightarrow> real) \<Rightarrow> matrix \<Rightarrow> error + matrix" where
  "pseudoinverse_rnd rnd A =
     (let m = length A; n = (if A = [] then 0 else length (A ! 0)) in
      if m = 0 \<or> n = 0 then Inr [] else
      bnd (transpose_m A) (\<lambda>AT.
      if m \<ge> n then
        bnd (multiply_rnd rnd AT A) (\<lambda>ATA.
        bnd (inverse_rnd rnd ATA) (\<lambda>ATA_inv.
        multiply_rnd rnd ATA_inv AT))
      else
        bnd (multiply_rnd rnd A AT) (\<lambda>AAT.
        bnd (inverse_rnd rnd AAT) (\<lambda>AAT_inv.
        multiply_rnd rnd AT AAT_inv))))"

subsection \<open>Shapes\<close>

text \<open>The invariant of the data model: \<open>m\<close> rows, every one of length \<open>n\<close>.\<close>

definition mat :: "nat \<Rightarrow> nat \<Rightarrow> matrix \<Rightarrow> bool" where
  "mat m n A \<longleftrightarrow> length A = m \<and> (\<forall>row \<in> set A. length row = n)"

subsection \<open>Invariants of the elimination\<close>

text \<open>
  Three properties of the augmented matrix \<open>[L | M]\<close> during \<^verbatim>\<open>inverse(A)\<close>:
  \<open>L = M A\<close>; the first \<open>i\<close> columns of \<open>L\<close> are unit vectors; and every row of a
  matrix \<open>X\<close> is a linear combination of the rows of \<open>Y\<close>.
\<close>

definition left_ok :: "nat \<Rightarrow> matrix \<Rightarrow> matrix \<Rightarrow> bool" where
  "left_ok n A aug \<longleftrightarrow> (\<forall>r<n. \<forall>c<n. aug ! r ! c = (\<Sum>k<n. aug ! r ! (n + k) * A ! k ! c))"

definition unit_cols :: "nat \<Rightarrow> nat \<Rightarrow> matrix \<Rightarrow> bool" where
  "unit_cols n i aug \<longleftrightarrow> (\<forall>r<n. \<forall>c<i. aug ! r ! c = (if r = c then 1 else 0))"

definition spans :: "nat \<Rightarrow> nat \<Rightarrow> matrix \<Rightarrow> matrix \<Rightarrow> bool" where
  "spans n w X Y \<longleftrightarrow> (\<forall>r<n. \<exists>e. \<forall>c<w. X ! r ! c = (\<Sum>k<n. e k * Y ! k ! c))"

definition gj_inv :: "nat \<Rightarrow> matrix \<Rightarrow> matrix \<Rightarrow> nat \<Rightarrow> matrix \<Rightarrow> bool" where
  "gj_inv n A aug0 i aug \<longleftrightarrow>
     mat n (2 * n) aug \<and> left_ok n A aug \<and> unit_cols n i aug \<and> spans n (2 * n) aug0 aug"

text \<open>The augmented matrix at the moment iteration \<open>i\<close> of the elimination loop begins.\<close>

definition elimination_state :: "nat \<Rightarrow> matrix \<Rightarrow> nat \<Rightarrow> error + matrix" where
  "elimination_state n A i = bnd (augment n A) (forM [0..<i] (gj_step n))"

section \<open>Evaluation on concrete inputs\<close>

lemmas access_defs = bnd_def rd_def wr_def rd2_def wr2_def Let_def eps12_def

lemma upt_0_numeral: "[0..<numeral n] = 0 # [Suc 0..<numeral n]"
  by (simp add: upt_rec)

lemmas eval_simps = access_defs upt_0_numeral upt_conv_Cons

lemmas qr_defs = qr_decompose_def identity_def zero_lower_def transpose_m_def
  householder_reflect_def reflect_A_def reflect_Q_def sumsq_def

lemmas gj_defs = inverse_m_def augment_def gj_step_def select_pivot_def swap_rows_def
  normalize_row_def eliminate_rows_def extract_inverse_def

lemma sqrt_values: "sqrt 625 = 25" "sqrt 1600 = 40" "sqrt 49 = 7" "sqrt 196 = 14"
  by (rule real_sqrt_unique; simp)+

section \<open>Double-precision arithmetic: the rounding function and the rounded code\<close>

declare bits.simps [simp del]

text \<open>With no rounding the rounded functions are the exact ones.\<close>

lemma rnd_id:
  "matmul_rnd (\<lambda>x. x) = matmul" "multiply_rnd (\<lambda>x. x) = multiply"
  "inverse_rnd (\<lambda>x. x) = inverse_m" "pseudoinverse_rnd (\<lambda>x. x) = pseudoinverse"
proof -
  have n: "normalize_row_rnd (\<lambda>x. x) = normalize_row"
    by (intro ext) (simp add: normalize_row_rnd_def normalize_row_def)
  have e: "eliminate_rows_rnd (\<lambda>x. x) = eliminate_rows"
    by (intro ext) (simp add: eliminate_rows_rnd_def eliminate_rows_def)
  have g: "gj_step_rnd (\<lambda>x. x) = gj_step"
    by (intro ext) (simp add: gj_step_rnd_def gj_step_def n e cong: if_cong)
  show "matmul_rnd (\<lambda>x. x) = matmul"
    by (intro ext) (simp add: matmul_rnd_def matmul_def)
  show m: "multiply_rnd (\<lambda>x. x) = multiply"
    by (intro ext) (simp add: multiply_rnd_def multiply_def)
  show i: "inverse_rnd (\<lambda>x. x) = inverse_m"
    by (intro ext) (simp add: inverse_rnd_def inverse_m_def g cong: if_cong)
  show "pseudoinverse_rnd (\<lambda>x. x) = pseudoinverse"
    by (intro ext) (simp add: pseudoinverse_rnd_def pseudoinverse_def m i cong: if_cong)
qed

text \<open>
  \<open>ilog2\<close> is the binary exponent, \<open>round_even\<close> is within one half of its argument, and
  \<open>fl x\<close> is a multiple of the quantum of \<open>x\<close> within half a quantum of \<open>x\<close>.
\<close>

lemma bits_bounds: "0 < n \<Longrightarrow> 2 ^ (bits n - 1) \<le> n \<and> n < 2 ^ bits n"
proof (induction n rule: bits.induct)
  case (1 n)
  show ?case
  proof (cases "n div 2 = 0")
    case True
    with 1(2) have "n = 1" by auto
    then show ?thesis by (simp add: bits.simps)
  next
    case False
    define h where "h = n div 2"
    define p :: nat where "p = 2 ^ (bits h - 1)"
    have h: "0 < h" using False by (simp add: h_def)
    from 1(1)[OF _ h[unfolded h_def]] 1(2) have ih: "p \<le> h" "h < 2 ^ bits h"
      by (auto simp: p_def h_def)
    have b: "bits n = Suc (bits h)" using 1(2) unfolding h_def by (subst bits.simps) simp
    have pos: "0 < bits h" using h by (subst bits.simps) simp
    then have e: "(2::nat) ^ bits h = 2 * p"
      unfolding p_def by (cases "bits h") simp_all
    have d: "2 * h \<le> n" "n < 2 * h + 2" unfolding h_def by arith+
    have "2 * p \<le> n" "n < 2 * (2 * p)" using ih d e by linarith+
    then show ?thesis by (simp add: b e)
  qed
qed

lemma pow2_pos: "0 < pow2 e"
  by (simp add: pow2_def)

lemma ilog2_bounds:
  assumes "0 < a"
  shows "pow2 (ilog2 a) \<le> a \<and> a < pow2 (ilog2 a + 1)"
proof (cases "1 \<le> a")
  case True
  define n where "n = nat \<lfloor>a\<rfloor>"
  have "0 \<le> \<lfloor>a\<rfloor>" using True by simp
  then have rn: "real n = of_int \<lfloor>a\<rfloor>" by (simp add: n_def)
  have n: "0 < n" "real n \<le> a" "a < real n + 1"
    using True by (simp add: n_def, simp add: rn, simp add: rn)
  from bits_bounds[OF n(1)] have b: "2 ^ (bits n - 1) \<le> n" "n < 2 ^ bits n" by auto
  have bp: "0 < bits n" using n(1) by (subst bits.simps) simp
  have i: "ilog2 a = int (bits n) - 1" using True by (simp add: ilog2_def n_def)
  have p1: "pow2 (ilog2 a) = 2 ^ (bits n - 1)"
    using bp by (simp add: i pow2_def nat_diff_distrib')
  have p2: "pow2 (ilog2 a + 1) = 2 ^ bits n"
    by (simp add: i pow2_def)
  have "real (2 ^ (bits n - 1)) \<le> real n" using b(1) by (rule of_nat_mono)
  then have "(2::real) ^ (bits n - 1) \<le> real n" by simp
  moreover have "real (Suc n) \<le> real (2 ^ bits n)"
    by (rule of_nat_mono) (use b(2) in simp)
  then have "real n + 1 \<le> 2 ^ bits n" by simp
  ultimately show ?thesis using n p1 p2 by linarith
next
  case False
  define c where "c = nat \<lceil>1 / a\<rceil>"
  have y: "1 < 1 / a" using False assms by simp
  have "0 \<le> \<lceil>1 / a\<rceil>" using y by (simp add: order.strict_implies_order)
  then have rc: "real c = of_int \<lceil>1 / a\<rceil>" by (simp add: c_def)
  have "2 \<le> \<lceil>1 / a\<rceil>" using y by (simp add: le_ceiling_iff)
  then have c2: "2 \<le> c" unfolding c_def by linarith
  have c: "1 / a \<le> real c" "real c - 1 < 1 / a" "2 \<le> c"
    using c2 by (simp add: rc, simp add: rc, linarith, simp)
  then have c1: "0 < c - 1" by simp
  define M where "M = bits (c - 1)"
  from bits_bounds[OF c1] have b: "2 ^ (M - 1) \<le> c - 1" "c - 1 < 2 ^ M" by (auto simp: M_def)
  have Mp: "0 < M" using c1 unfolding M_def by (subst bits.simps) simp
  have i: "ilog2 a = - int M" using False by (simp add: ilog2_def c_def M_def)
  have p1: "pow2 (ilog2 a) = 1 / 2 ^ M" using Mp by (simp add: i pow2_def)
  have p2: "pow2 (ilog2 a + 1) = 1 / 2 ^ (M - 1)"
    using Mp by (cases M) (simp_all add: i pow2_def)
  have "c \<le> 2 ^ M" using b(2) by linarith
  then have "real c \<le> real (2 ^ M)" by (rule of_nat_mono)
  then have "real c \<le> 2 ^ M" by simp
  then have u: "1 / a \<le> 2 ^ M" using c(1) by linarith
  have "real (2 ^ (M - 1)) \<le> real (c - 1)" using b(1) by (rule of_nat_mono)
  then have "(2::real) ^ (M - 1) \<le> real (c - 1)" by simp
  then have l: "2 ^ (M - 1) < 1 / a" using c(2,3) by (simp add: of_nat_diff)
  have "1 / 2 ^ M \<le> a" using u assms by (simp add: field_simps)
  moreover have "a < 1 / 2 ^ (M - 1)" using l assms by (simp add: field_simps)
  ultimately show ?thesis using p1 p2 by simp
qed

lemma round_even_near: "\<bar>of_int (round_even r) - r\<bar> \<le> 1 / 2"
  unfolding round_even_def Let_def by (auto simp: abs_if) linarith+

lemma fl_error:
  assumes "x \<noteq> 0"
  shows "\<exists>e k. e = max (ilog2 \<bar>x\<bar> - 52) (- 1074) \<and> fl x = of_int k * pow2 e \<and>
           \<bar>fl x - x\<bar> \<le> pow2 e / 2"
proof -
  define e where "e = max (ilog2 \<bar>x\<bar> - 52) (- 1074)"
  define k where "k = round_even (x / pow2 e)"
  have f: "fl x = of_int k * pow2 e" using assms by (simp add: fl_def Let_def e_def k_def)
  have "fl x - x = (of_int k - x / pow2 e) * pow2 e"
    using pow2_pos[of e] by (simp add: f left_diff_distrib)
  then have "\<bar>fl x - x\<bar> = \<bar>of_int k - x / pow2 e\<bar> * pow2 e"
    using pow2_pos[of e] by (simp add: abs_mult)
  also have "\<dots> \<le> 1 / 2 * pow2 e"
    by (rule mult_right_mono) (use round_even_near[of "x / pow2 e"] pow2_pos[of e] in \<open>simp_all add: k_def\<close>)
  finally show ?thesis using f e_def by auto
qed

lemmas fl_eval = fl_def ilog2_def round_even_def pow2_def bits.simps

lemmas gj_rnd_defs = inverse_rnd_def augment_def gj_step_rnd_def select_pivot_def swap_rows_def
  normalize_row_rnd_def eliminate_rows_rnd_def extract_inverse_def

lemmas pinv_rnd_defs = pseudoinverse_rnd_def transpose_m_def multiply_rnd_def gj_rnd_defs

text \<open>The doubles nearest to 0.1 and to 1e-12.\<close>

lemma fl_tenth: "fl (1 / 10) = 3602879701896397 / 2 ^ 55"
  by (simp add: fl_eval)

lemma fl_eps12: "fl eps12 = 4951760157141521 / 2 ^ 92"
  by (simp add: eps12_def fl_eval)

text \<open>Runs in doubles, used below.\<close>

lemma inverse_dbl_4_7:
  "inverse_rnd fl [[4, 7], [2, 6]]
     = Inr [[1351079888211149 / 2 ^ 51, - 6305039478318695 / 2 ^ 53],
            [- 3602879701896397 / 2 ^ 54, 3602879701896397 / 2 ^ 53]]"
  by (simp add: gj_rnd_defs eval_simps fl_eval)

lemma pseudoinverse_dbl_4_7:
  "pseudoinverse_rnd fl [[4, 7], [2, 6]]
     = Inr [[1351079888211149 / 2 ^ 51, - 788129934789837 / 2 ^ 50],
            [- 900719925474099 / 2 ^ 52, 1801439850948199 / 2 ^ 52]]"
  by (simp add: pinv_rnd_defs eval_simps fl_eval)

lemma inverse_dbl_fib:
  "inverse_rnd fl [[514229, 317811], [317811, 196418]]
     = Inr [[6748868153532331 / 2 ^ 35, - 5459949028964411 / 2 ^ 34],
            [- 1364987257241103 / 2 ^ 32, 552148944108161 / 2 ^ 30]]"
  by (simp add: gj_rnd_defs eval_simps fl_eval)

lemma product_dbl_fib:
  "matmul_rnd fl [[6748868153532331 / 2 ^ 35, - 5459949028964411 / 2 ^ 34],
                  [- 1364987257241103 / 2 ^ 32, 552148944108161 / 2 ^ 30]]
                 [[514229, 317811], [317811, 196418]]
     = Inr [[65537 / 2 ^ 16, 1 / 2 ^ 17], [- 1 / 2 ^ 15, 32767 / 2 ^ 15]]"
  by (simp add: matmul_rnd_def eval_simps fl_eval)

lemma inverse_dbl_1597:
  "inverse_rnd fl [[1597, 987], [987, 610]]
     = Inr [[5365616743595679 / 2 ^ 43, - 8681743812998255 / 2 ^ 43],
            [- 8681743812998255 / 2 ^ 43, 877960034787121 / 2 ^ 39]]"
  by (simp add: gj_rnd_defs eval_simps fl_eval)

lemma pseudoinverse_dbl_1597:
  "pseudoinverse_rnd fl [[1597, 987], [987, 610]]
     = Inr [[1278818097 / 2 ^ 21, - 4138339219 / 2 ^ 22],
            [- 2069169609 / 2 ^ 21, 1673993853 / 2 ^ 20]]"
  by (simp add: pinv_rnd_defs eval_simps fl_eval)

section \<open>HouseholderQR: the product of the returned factors\<close>

text \<open>
  Claim C1 (the factors returned by \<^verbatim>\<open>qr_decompose\<close> multiply back to the input), at
  the 2-by-2 input with rows (7, 0) and (24, 25). Both reflections are applied; every
  square root is rational, so the run is exact. \<^verbatim>\<open>householder_reflect\<close> accumulates
  \<open>Q := Q H\<close>, which after the loop already satisfies \<open>Q R = A\<close>; the final
  \<^verbatim>\<open>Q = transpose(Q)\<close> returns its transpose instead, and the product of the returned
  factors has entry -24 where the input has 24. The last line is the product with the
  matrix accumulated before that transposition: it is the input.
\<close>

theorem qr_decompose_product_at_7_24:
  "qr_decompose [[7, 0], [24, 25]]
     = Inr ([[- 7 / 25, - 24 / 25], [24 / 25, - 7 / 25]], [[- 25, - 24], [0, - 7]])
   \<and> matmul [[- 7 / 25, - 24 / 25], [24 / 25, - 7 / 25]] [[- 25, - 24], [0, - 7]]
     = Inr [[7, 336 / 25], [- 24, - 527 / 25]]
   \<and> matmul [[- 7 / 25, 24 / 25], [- 24 / 25, - 7 / 25]] [[- 25, - 24], [0, - 7]]
     = Inr [[7, 0], [24, 25]]"
  by (simp add: qr_defs matmul_def eval_simps sqrt_values)

section \<open>Loops and checked indexing on well-shaped matrices\<close>

lemma bnd_simps [simp]: "bnd (Inr x) f = f x" "bnd (Inl e) f = Inl e"
  by (simp_all add: bnd_def)

lemma forM_append: "forM (xs @ ys) f s = bnd (forM xs f s) (forM ys f)"
  by (induction xs arbitrary: s) (auto simp: bnd_def split: sum.splits)

lemma bnd_Inr_right [simp]: "bnd r Inr = r"
  by (simp add: bnd_def split: sum.splits)

lemma forM_single [simp]: "forM [i] f = f i"
  by (rule ext) (simp add: bnd_def split: sum.splits)

lemma forM_upt_Suc: "a \<le> b \<Longrightarrow> forM [a..<Suc b] f s = bnd (forM [a..<b] f s) (f b)"
  by (simp add: forM_append)

lemma forM_upt_rule:
  assumes "a \<le> b" and "I a s"
    and step: "\<And>i t. a \<le> i \<Longrightarrow> i < b \<Longrightarrow> I i t \<Longrightarrow> \<exists>t'. f i t = Inr t' \<and> I (Suc i) t'"
  shows "\<exists>t. forM [a..<b] f s = Inr t \<and> I b t"
  using assms(1)
proof (induction rule: dec_induct)
  case base
  then show ?case using assms(2) by simp
next
  case (step n)
  then obtain t where t: "forM [a..<n] f s = Inr t" "I n t" by blast
  from assms(3)[OF step(1,2) t(2)] obtain t' where "f n t = Inr t'" "I (Suc n) t'" by blast
  then show ?case using t step(1) by (simp add: forM_append)
qed

lemma forM_upt_partial:
  assumes "forM [a..<b] f s = Inr t" and "a \<le> b" and "I a s"
    and step: "\<And>i u u'. a \<le> i \<Longrightarrow> i < b \<Longrightarrow> I i u \<Longrightarrow> f i u = Inr u' \<Longrightarrow> I (Suc i) u'"
  shows "I b t"
  using assms(2,1) step
proof (induction arbitrary: t rule: dec_induct)
  case base
  then show ?case using assms(3) by simp
next
  case (step n)
  from step(4) step(1) obtain u where u: "forM [a..<n] f s = Inr u" "f n u = Inr t"
    by (auto simp: forM_append bnd_def split: sum.splits)
  have "I n u" using step(3)[OF u(1)] step(5) step(2) by (meson less_Suc_eq)
  then show ?case using step(5)[OF step(1) _ _ u(2)] by simp
qed

lemma forM_upt_Inl_iff:
  assumes "a \<le> b"
  shows "forM [a..<b] f s = Inl e \<longleftrightarrow>
         (\<exists>i t. a \<le> i \<and> i < b \<and> forM [a..<i] f s = Inr t \<and> f i t = Inl e)"
  using assms
proof (induction rule: dec_induct)
  case base
  then show ?case by simp
next
  case (step n)
  show ?case
  proof (cases "forM [a..<n] f s")
    case (Inl e')
    have "\<And>i t. a \<le> i \<Longrightarrow> i < Suc n \<Longrightarrow> forM [a..<i] f s = Inr t \<Longrightarrow> f i t = Inl e \<Longrightarrow> i < n"
      using Inl by (metis Inl_Inr_False less_antisym)
    then show ?thesis using step Inl by (auto simp: forM_append)
  next
    case (Inr u)
    have "\<not> (\<exists>i t. a \<le> i \<and> i < n \<and> forM [a..<i] f s = Inr t \<and> f i t = Inl e)"
      using step(3) Inr by simp
    then show ?thesis using step(1) Inr
      by (auto simp: forM_append less_Suc_eq)
  qed
qed

lemma rd_ok [simp]: "i < length xs \<Longrightarrow> rd xs i = Inr (xs ! i)"
  by (simp add: rd_def)

lemma wr_ok [simp]: "i < length xs \<Longrightarrow> wr xs i v = Inr (xs[i := v])"
  by (simp add: wr_def)

lemma mat_row: "mat m n A \<Longrightarrow> i < m \<Longrightarrow> length (A ! i) = n"
  by (simp add: mat_def)

lemma mat_len: "mat m n A \<Longrightarrow> length A = m"
  by (simp add: mat_def)

lemma rd2_ok: "mat m n A \<Longrightarrow> i < m \<Longrightarrow> j < n \<Longrightarrow> rd2 A i j = Inr (A ! i ! j)"
  by (simp add: rd2_def mat_def)

lemma wr2_ok:
  "mat m n A \<Longrightarrow> i < m \<Longrightarrow> j < n \<Longrightarrow> wr2 A i j v = Inr (A[i := (A ! i)[j := v]])"
  by (simp add: wr2_def mat_def)

lemma mat_upd: "mat m n A \<Longrightarrow> length r = n \<Longrightarrow> mat m n (A[i := r])"
  by (auto simp: mat_def dest: set_update_subset_insert[THEN subsetD])

lemma mat_upd2: "mat m n A \<Longrightarrow> i < m \<Longrightarrow> mat m n (A[i := (A ! i)[j := v]])"
  by (rule mat_upd) (simp_all add: mat_row)

lemma nth_upd2:
  "mat m n A \<Longrightarrow> i' < m \<Longrightarrow> j' < n \<Longrightarrow>
   A[i := (A ! i)[j := v]] ! i' ! j' = (if i' = i \<and> j' = j then v else A ! i' ! j')"
  by (cases "i' = i") (auto simp: mat_def nth_list_update)

lemma mat_replicate: "mat m n (replicate m (replicate n x))"
  by (simp add: mat_def)

lemma mat_eqI:
  assumes "mat m n A" "mat m n B" "\<And>i j. i < m \<Longrightarrow> j < n \<Longrightarrow> A ! i ! j = B ! i ! j"
  shows "A = B"
proof (rule nth_equalityI)
  show "length A = length B" using assms by (simp add: mat_def)
next
  fix i assume "i < length A"
  then have i: "i < m" using assms by (simp add: mat_def)
  show "A ! i = B ! i"
    by (rule nth_equalityI) (use assms i in \<open>simp_all add: mat_row\<close>)
qed

text \<open>The innermost loop of both products: \<^verbatim>\<open>C[i][j] += a * B[k][j]\<close> for every \<open>j\<close>.\<close>

lemma axpy_loop:
  assumes C: "mat m p C" and B: "mat n p B" and i: "i < m" and k: "k < n"
  shows "\<exists>C'. forM [0..<p] (\<lambda>j C. bnd (rd2 C i j) (\<lambda>c. bnd (rd2 B k j) (\<lambda>b. wr2 C i j (c + a * b)))) C = Inr C'
     \<and> mat m p C' \<and> (\<forall>i'<m. \<forall>j'<p. C' ! i' ! j' = (if i' = i then C ! i' ! j' + a * B ! k ! j' else C ! i' ! j'))"
proof -
  let ?I = "\<lambda>j D. mat m p D \<and> (\<forall>i'<m. \<forall>j'<p. D ! i' ! j' = (if i' = i \<and> j' < j then C ! i' ! j' + a * B ! k ! j' else C ! i' ! j'))"
  have "\<exists>t. forM [0..<p] (\<lambda>j C. bnd (rd2 C i j) (\<lambda>c. bnd (rd2 B k j) (\<lambda>b. wr2 C i j (c + a * b)))) C = Inr t \<and> ?I p t"
  proof (rule forM_upt_rule[where I = ?I])
    show "?I 0 C" using C by simp
  next
    fix j D assume j: "0 \<le> j" "j < p" and D: "?I j D"
    then have mD: "mat m p D" by simp
    have "bnd (rd2 D i j) (\<lambda>c. bnd (rd2 B k j) (\<lambda>b. wr2 D i j (c + a * b)))
        = Inr (D[i := (D ! i)[j := D ! i ! j + a * B ! k ! j]])"
      using mD B i k j by (simp add: rd2_ok wr2_ok)
    moreover have "?I (Suc j) (D[i := (D ! i)[j := D ! i ! j + a * B ! k ! j]])"
      using D i j by (auto simp: mat_upd2 nth_upd2 less_Suc_eq)
    ultimately show "\<exists>t'. bnd (rd2 D i j) (\<lambda>c. bnd (rd2 B k j) (\<lambda>b. wr2 D i j (c + a * b))) = Inr t' \<and> ?I (Suc j) t'"
      by blast
  qed simp
  then show ?thesis by auto
qed


lemma row_loop:
  assumes f: "\<And>k D. k < n \<Longrightarrow> mat m p D \<Longrightarrow>
      \<exists>D'. f k D = Inr D' \<and> mat m p D' \<and>
        (\<forall>i'<m. \<forall>j'<p. D' ! i' ! j' = (if i' = i then D ! i' ! j' + T k j' else D ! i' ! j'))"
    and C: "mat m p C"
  shows "\<exists>C'. forM [0..<n] f C = Inr C' \<and> mat m p C' \<and>
      (\<forall>i'<m. \<forall>j'<p. C' ! i' ! j' = (if i' = i then C ! i' ! j' + (\<Sum>k<n. T k j') else C ! i' ! j'))"
proof -
  let ?I = "\<lambda>k D. mat m p D \<and>
      (\<forall>i'<m. \<forall>j'<p. D ! i' ! j' = (if i' = i then C ! i' ! j' + (\<Sum>k'<k. T k' j') else C ! i' ! j'))"
  have "\<exists>t. forM [0..<n] f C = Inr t \<and> ?I n t"
  proof (rule forM_upt_rule[where I = ?I])
    show "?I 0 C" using C by simp
  next
    fix k D assume k: "0 \<le> k" "k < n" and D: "?I k D"
    from f[OF k(2)] D obtain D' where D': "f k D = Inr D'" "mat m p D'"
      "\<forall>i'<m. \<forall>j'<p. D' ! i' ! j' = (if i' = i then D ! i' ! j' + T k j' else D ! i' ! j')"
      by blast
    have "?I (Suc k) D'" using D D'(2,3) by (simp add: add.assoc)
    then show "\<exists>t'. f k D = Inr t' \<and> ?I (Suc k) t'" using D'(1) by blast
  qed simp
  then show ?thesis by blast
qed

lemma rows_loop:
  assumes g: "\<And>i D. i < m \<Longrightarrow> mat m p D \<Longrightarrow>
      \<exists>D'. g i D = Inr D' \<and> mat m p D' \<and>
        (\<forall>i'<m. \<forall>j'<p. D' ! i' ! j' = (if i' = i then D ! i' ! j' + S i j' else D ! i' ! j'))"
  shows "\<exists>C'. forM [0..<m] g (replicate m (replicate p 0)) = Inr C' \<and> mat m p C' \<and>
      (\<forall>i<m. \<forall>j<p. C' ! i ! j = S i j)"
proof -
  let ?I = "\<lambda>i D. mat m p D \<and> (\<forall>i'<m. \<forall>j'<p. D ! i' ! j' = (if i' < i then S i' j' else 0))"
  have "\<exists>t. forM [0..<m] g (replicate m (replicate p 0)) = Inr t \<and> ?I m t"
  proof (rule forM_upt_rule[where I = ?I])
    show "?I 0 (replicate m (replicate p 0))" by (simp add: mat_replicate)
  next
    fix i D assume i: "0 \<le> i" "i < m" and D: "?I i D"
    from g[OF i(2)] D obtain D' where D': "g i D = Inr D'" "mat m p D'"
      "\<forall>i'<m. \<forall>j'<p. D' ! i' ! j' = (if i' = i then D ! i' ! j' + S i j' else D ! i' ! j')"
      by blast
    have "?I (Suc i) D'" using D D'(2,3) i by (auto simp: less_Suc_eq)
    then show "\<exists>t'. g i D = Inr t' \<and> ?I (Suc i) t'" using D'(1) by blast
  qed simp
  then show ?thesis by auto
qed

lemma matmul_ok:
  assumes A: "mat m n A" and B: "mat n p B" and m: "0 < m" and n: "0 < n"
  shows "\<exists>C. matmul A B = Inr C \<and> mat m p C \<and>
           (\<forall>i<m. \<forall>j<p. C ! i ! j = (\<Sum>k<n. A ! i ! k * B ! k ! j))"
proof -
  have hd: "rd A 0 = Inr (A ! 0)" "rd B 0 = Inr (B ! 0)" "length (A ! 0) = n" "length (B ! 0) = p"
    "length A = m"
    using A B m n by (simp_all add: mat_def)
  let ?inner = "\<lambda>i k C. bnd (rd2 A i k) (\<lambda>a.
             forM [0..<p] (\<lambda>j C.
               bnd (rd2 C i j) (\<lambda>c. bnd (rd2 B k j) (\<lambda>b. wr2 C i j (c + a * b)))) C)"
  have inner: "\<exists>D'. ?inner i k D = Inr D' \<and> mat m p D' \<and>
        (\<forall>i'<m. \<forall>j'<p. D' ! i' ! j' = (if i' = i then D ! i' ! j' + A ! i ! k * B ! k ! j' else D ! i' ! j'))"
    if "i < m" "k < n" "mat m p D" for i k D
    using axpy_loop[OF that(3) B that(1,2), of "A ! i ! k"] A that by (simp add: rd2_ok)
  have row: "\<exists>D'. forM [0..<n] (?inner i) D = Inr D' \<and> mat m p D' \<and>
        (\<forall>i'<m. \<forall>j'<p. D' ! i' ! j' = (if i' = i then D ! i' ! j' + (\<Sum>k<n. A ! i ! k * B ! k ! j') else D ! i' ! j'))"
    if "i < m" "mat m p D" for i D
    by (rule row_loop[where T = "\<lambda>k j'. A ! i ! k * B ! k ! j'"]) (use inner that in auto)
  have "\<exists>C'. forM [0..<m] (\<lambda>i. forM [0..<n] (?inner i)) (replicate m (replicate p 0)) = Inr C' \<and> mat m p C' \<and>
      (\<forall>i<m. \<forall>j<p. C' ! i ! j = (\<Sum>k<n. A ! i ! k * B ! k ! j))"
    by (rule rows_loop[where S = "\<lambda>i j. \<Sum>k<n. A ! i ! k * B ! k ! j"]) (use row in auto)
  then show ?thesis by (simp add: matmul_def hd)
qed

lemma multiply_ok:
  assumes A: "mat m n A" and B: "mat n p B" and n: "0 < n"
  shows "\<exists>C. multiply A B = Inr C \<and> mat m p C \<and>
           (\<forall>i<m. \<forall>j<p. C ! i ! j = (\<Sum>k<n. A ! i ! k * B ! k ! j))"
proof -
  have hd: "rd B 0 = Inr (B ! 0)" "length (B ! 0) = p" "length A = m" "length B = n"
    using A B n by (simp_all add: mat_def)
  let ?inner = "\<lambda>i k C. bnd (rd2 A i k) (\<lambda>a. if a \<noteq> 0 then
             forM [0..<p] (\<lambda>j C.
               bnd (rd2 C i j) (\<lambda>c. bnd (rd2 B k j) (\<lambda>b. wr2 C i j (c + a * b)))) C else Inr C)"
  have inner: "\<exists>D'. ?inner i k D = Inr D' \<and> mat m p D' \<and>
        (\<forall>i'<m. \<forall>j'<p. D' ! i' ! j' = (if i' = i then D ! i' ! j' + A ! i ! k * B ! k ! j' else D ! i' ! j'))"
    if "i < m" "k < n" "mat m p D" for i k D
    using axpy_loop[OF that(3) B that(1,2), of "A ! i ! k"] A that by (simp add: rd2_ok)
  have row: "\<exists>D'. forM [0..<n] (?inner i) D = Inr D' \<and> mat m p D' \<and>
        (\<forall>i'<m. \<forall>j'<p. D' ! i' ! j' = (if i' = i then D ! i' ! j' + (\<Sum>k<n. A ! i ! k * B ! k ! j') else D ! i' ! j'))"
    if "i < m" "mat m p D" for i D
    by (rule row_loop[where T = "\<lambda>k j'. A ! i ! k * B ! k ! j'"]) (use inner that in auto)
  have "\<exists>C'. forM [0..<m] (\<lambda>i. forM [0..<n] (?inner i)) (replicate m (replicate p 0)) = Inr C' \<and> mat m p C' \<and>
      (\<forall>i<m. \<forall>j<p. C' ! i ! j = (\<Sum>k<n. A ! i ! k * B ! k ! j))"
    by (rule rows_loop[where S = "\<lambda>i j. \<Sum>k<n. A ! i ! k * B ! k ! j"]) (use row in auto)
  then show ?thesis by (simp add: multiply_def hd)
qed

lemma transpose_ok:
  assumes A: "mat m n A" and m: "0 < m"
  shows "\<exists>B. transpose_m A = Inr B \<and> mat n m B \<and> (\<forall>i<m. \<forall>j<n. B ! j ! i = A ! i ! j)"
proof -
  have hd: "rd A 0 = Inr (A ! 0)" "length (A ! 0) = n" "length A = m"
    using A m by (simp_all add: mat_def)
  let ?body = "\<lambda>i j B. bnd (rd2 A i j) (\<lambda>a. wr2 B j i a)"
  have inner: "\<exists>D'. forM [0..<n] (?body i) D = Inr D' \<and> mat n m D' \<and>
      (\<forall>j'<n. \<forall>i'<m. D' ! j' ! i' = (if i' = i then A ! i ! j' else D ! j' ! i'))"
    if i: "i < m" and D: "mat n m D" for i D
  proof -
    let ?I = "\<lambda>j E. mat n m E \<and>
      (\<forall>j'<n. \<forall>i'<m. E ! j' ! i' = (if i' = i \<and> j' < j then A ! i ! j' else D ! j' ! i'))"
    have "\<exists>t. forM [0..<n] (?body i) D = Inr t \<and> ?I n t"
    proof (rule forM_upt_rule[where I = ?I])
      show "?I 0 D" using D by simp
    next
      fix j E assume j: "0 \<le> j" "j < n" and E: "?I j E"
      from E have mE: "mat n m E" by simp
      have "?body i j E = Inr (E[j := (E ! j)[i := A ! i ! j]])"
        using wr2_ok[OF mE j(2) i] rd2_ok[OF A i j(2)] by simp
      moreover have "?I (Suc j) (E[j := (E ! j)[i := A ! i ! j]])"
        using E i j by (auto simp: mat_upd2 nth_upd2 less_Suc_eq)
      ultimately show "\<exists>t'. ?body i j E = Inr t' \<and> ?I (Suc j) t'" by blast
    qed simp
    then show ?thesis by auto
  qed
  let ?I = "\<lambda>i D. mat n m D \<and> (\<forall>j'<n. \<forall>i'<m. D ! j' ! i' = (if i' < i then A ! i' ! j' else 0))"
  have "\<exists>t. forM [0..<m] (\<lambda>i. forM [0..<n] (?body i)) (replicate n (replicate m 0)) = Inr t \<and> ?I m t"
  proof (rule forM_upt_rule[where I = ?I])
    show "?I 0 (replicate n (replicate m 0))" by (simp add: mat_replicate)
  next
    fix i D assume i: "0 \<le> i" "i < m" and D: "?I i D"
    from inner[OF i(2)] D obtain D' where D': "forM [0..<n] (?body i) D = Inr D'" "mat n m D'"
      "\<forall>j'<n. \<forall>i'<m. D' ! j' ! i' = (if i' = i then A ! i ! j' else D ! j' ! i')"
      by blast
    have "?I (Suc i) D'" using D D'(2,3) i by (auto simp: less_Suc_eq)
    then show "\<exists>t'. forM [0..<n] (?body i) D = Inr t' \<and> ?I (Suc i) t'" using D'(1) by blast
  qed simp
  then show ?thesis by (auto simp: transpose_m_def hd)
qed

text \<open>The only failure of a product is an index out of bounds.\<close>

lemma forM_error:
  assumes "forM xs f s = Inl e" and "\<And>i t. f i t = Inl e \<Longrightarrow> P"
  shows P
  using assms
proof (induction xs arbitrary: s)
  case Nil
  then show ?case by simp
next
  case (Cons i xs)
  then show ?case by (cases "f i s") auto
qed

lemma bnd_error:
  assumes "bnd r f = Inl e"
  obtains "r = Inl e" | x where "r = Inr x" "f x = Inl e"
  using assms by (cases r) auto

lemma rd_error: "rd xs i = Inl e \<Longrightarrow> e = OutOfBounds"
  by (simp add: rd_def split: if_splits)

lemma wr_error: "wr xs i v = Inl e \<Longrightarrow> e = OutOfBounds"
  by (simp add: wr_def split: if_splits)

lemma rd2_error: "rd2 A i j = Inl e \<Longrightarrow> e = OutOfBounds"
  by (auto simp: rd2_def bnd_def split: sum.splits dest: rd_error)

lemma wr2_error: "wr2 A i j v = Inl e \<Longrightarrow> e = OutOfBounds"
  by (auto simp: wr2_def bnd_def split: sum.splits dest: rd_error wr_error)

lemma axpy_error:
  assumes "forM js (\<lambda>j C. bnd (rd2 C i j) (\<lambda>c. bnd (rd2 B k j) (\<lambda>b. wr2 C i j (c + a * b)))) C = Inl e"
  shows "e = OutOfBounds"
  by (rule forM_error[OF assms])
     (auto simp: bnd_def split: sum.splits dest: rd2_error wr2_error)

lemma matmul_error:
  assumes "matmul A B = Inl e"
  shows "e = OutOfBounds"
proof -
  have row: "e = OutOfBounds"
    if "forM ks (\<lambda>k C.
           bnd (rd2 A i k) (\<lambda>a.
             forM [0..<p] (\<lambda>j C.
               bnd (rd2 C i j) (\<lambda>c. bnd (rd2 B k j) (\<lambda>b. wr2 C i j (c + a * b)))) C)) C = Inl e"
    for ks i p C
    by (rule forM_error[OF that])
       (auto elim!: bnd_error dest: rd2_error axpy_error)
  have rows: "e = OutOfBounds"
    if "forM is (\<lambda>i C.
         forM [0..<n] (\<lambda>k C.
           bnd (rd2 A i k) (\<lambda>a.
             forM [0..<p] (\<lambda>j C.
               bnd (rd2 C i j) (\<lambda>c. bnd (rd2 B k j) (\<lambda>b. wr2 C i j (c + a * b)))) C)) C) C = Inl e"
    for "is" n p C
    by (rule forM_error[OF that]) (rule row)
  from assms show ?thesis
    by (auto simp: matmul_def Let_def elim!: bnd_error dest: rd_error rows)
qed

lemma multiply_error:
  assumes "multiply A B = Inl e"
  shows "e = OutOfBounds"
proof -
  have row: "e = OutOfBounds"
    if "forM ks (\<lambda>k C.
           bnd (rd2 A i k) (\<lambda>a.
             if a \<noteq> 0 then
               forM [0..<p] (\<lambda>j C.
                 bnd (rd2 C i j) (\<lambda>c. bnd (rd2 B k j) (\<lambda>b. wr2 C i j (c + a * b)))) C
             else Inr C)) C = Inl e"
    for ks i p C
    by (rule forM_error[OF that])
       (auto elim!: bnd_error split: if_splits dest: rd2_error axpy_error)
  have rows: "e = OutOfBounds"
    if "forM is (\<lambda>i C.
         forM [0..<n] (\<lambda>k C.
           bnd (rd2 A i k) (\<lambda>a.
             if a \<noteq> 0 then
               forM [0..<p] (\<lambda>j C.
                 bnd (rd2 C i j) (\<lambda>c. bnd (rd2 B k j) (\<lambda>b. wr2 C i j (c + a * b)))) C
             else Inr C)) C) C = Inl e"
    for "is" n p C
    by (rule forM_error[OF that]) (rule row)
  from assms show ?thesis
    by (auto simp: multiply_def Let_def elim!: bnd_error dest: rd_error rows)
qed

section \<open>MatrixOps: products and transposition\<close>

text \<open>
  Claim C4, first half, as the claim states it (a product of mismatched operands fails
  with DimensionMismatch), refuted: \<^verbatim>\<open>matmul\<close> takes the inner dimension from \<open>A\<close>
  and \<^verbatim>\<open>multiply\<close> takes it from \<open>B\<close>, neither compares the two, and each returns a
  matrix when the other operand is the larger one.
\<close>

theorem matmul_mismatch_returns:
  "length ([[1]] ! 0 :: vec) = 1 \<and> length ([[2], [3]] :: matrix) = 2
   \<and> matmul [[1]] [[2], [3]] = Inr [[2]]
   \<and> length ([[1, 5]] ! 0 :: vec) = 2 \<and> length ([[2]] :: matrix) = 1
   \<and> multiply [[1, 5]] [[2]] = Inr [[2]]"
  by (simp add: matmul_def multiply_def eval_simps)

text \<open>
  Claim C4, amended: for \<open>A\<close> of shape m-by-n and \<open>B\<close> of shape n-by-p with at least one
  row each, \<^verbatim>\<open>matmul\<close> and \<^verbatim>\<open>multiply\<close> return the m-by-p matrix whose entry
  \<open>(i, j)\<close> is the sum over \<open>k\<close> of \<open>A(i,k) * B(k,j)\<close>. (\<^verbatim>\<open>multiply\<close> reads only
  \<^verbatim>\<open>B[0]\<close>, so it also accepts \<open>m = 0\<close>.) On no operands \<open>X\<close>, \<open>Y\<close> at all does
  either of them fail with DimensionMismatch.
\<close>

theorem matmul_inner_product:
  assumes "mat m n A" and "mat n p B" and "0 < n"
  shows "(0 < m \<longrightarrow> (\<exists>C. matmul A B = Inr C \<and> mat m p C \<and>
            (\<forall>i<m. \<forall>j<p. C ! i ! j = (\<Sum>k<n. A ! i ! k * B ! k ! j))))
       \<and> (\<exists>C. multiply A B = Inr C \<and> mat m p C \<and>
            (\<forall>i<m. \<forall>j<p. C ! i ! j = (\<Sum>k<n. A ! i ! k * B ! k ! j)))
       \<and> matmul X Y \<noteq> Inl DimensionMismatch \<and> multiply X Y \<noteq> Inl DimensionMismatch"
proof -
  have "matmul X Y \<noteq> Inl DimensionMismatch" "multiply X Y \<noteq> Inl DimensionMismatch"
    using matmul_error[of X Y DimensionMismatch] multiply_error[of X Y DimensionMismatch]
    by auto
  then show ?thesis
    using matmul_ok[OF assms(1,2) _ assms(3)] multiply_ok[OF assms] by blast
qed

theorem matmul_inner_product_witness:
  "mat 2 2 [[1, 2], [3, 4]] \<and> mat 2 1 [[5], [6]] \<and> (0::nat) < 2
   \<and> (\<exists>C. matmul [[1, 2], [3, 4]] [[5], [6]] = Inr C \<and> mat 2 1 C
        \<and> C ! 1 ! 0 = (\<Sum>k<2. [[1, 2], [3, 4]] ! 1 ! k * [[5], [6]] ! k ! 0))
   \<and> (\<exists>C. multiply [[1, 2], [3, 4]] [[5], [6]] = Inr C \<and> mat 2 1 C
        \<and> C ! 1 ! 0 = (\<Sum>k<2. [[1, 2], [3, 4]] ! 1 ! k * [[5], [6]] ! k ! 0))
   \<and> matmul [[1, 5]] [[2]] \<noteq> Inl DimensionMismatch
   \<and> multiply [[1]] [[2], [3]] \<noteq> Inl DimensionMismatch"
proof -
  have A: "mat 2 2 [[1, 2], [3, 4]]" and B: "mat 2 1 [[5], [6]]" and n: "(0::nat) < 2"
    by (simp_all add: mat_def)
  from matmul_inner_product[OF A B n, of "[[1, 5]]" "[[2]]"]
    matmul_inner_product[OF A B n, of "[[1]]" "[[2], [3]]"]
  show ?thesis
    using A B by fastforce
qed

text \<open>
  Claim C8 as the claim states it (no error condition, also for \<open>m = 0\<close>), refuted: on the
  matrix with no rows \<^verbatim>\<open>transpose\<close> reads \<^verbatim>\<open>A[0].size()\<close>, an index out of bounds.
\<close>

theorem transpose_no_rows: "transpose_m [] = Inl OutOfBounds"
  by (simp add: transpose_m_def access_defs)

text \<open>
  Claim C8, amended: for every m-by-n matrix with \<open>m \<ge> 1\<close> (and \<open>n \<ge> 0\<close>),
  \<^verbatim>\<open>transpose\<close> returns the n-by-m matrix whose entry \<open>(j, i)\<close> is \<open>A(i, j)\<close>.
\<close>

theorem transpose_entries:
  assumes "mat m n A" and "0 < m"
  shows "\<exists>B. transpose_m A = Inr B \<and> mat n m B \<and> (\<forall>i<m. \<forall>j<n. B ! j ! i = A ! i ! j)"
  using transpose_ok[OF assms] .

theorem transpose_entries_witness:
  "mat 2 3 [[1, 2, 3], [4, 5, 6]] \<and> (0::nat) < 2
   \<and> (\<exists>B. transpose_m [[1, 2, 3], [4, 5, 6]] = Inr B \<and> mat 3 2 B
        \<and> B ! 2 ! 1 = [[1, 2, 3], [4, 5, 6]] ! 1 ! 2)
   \<and> mat 1 0 [[]] \<and> (0::nat) < 1
   \<and> (\<exists>B. transpose_m [[]] = Inr B \<and> mat 0 1 B)"
proof -
  have A: "mat 2 3 [[1, 2, 3], [4, 5, 6]]" and E: "mat 1 0 [[]]"
    by (simp_all add: mat_def)
  from transpose_entries[OF A] transpose_entries[OF E] show ?thesis
    using A E by fastforce
qed

section \<open>LeastSquaresSolver: back-substitution\<close>

lemma forM_down_rule:
  assumes "I n s"
    and step: "\<And>i t. i < n \<Longrightarrow> I (Suc i) t \<Longrightarrow>
        (bad i \<and> f i t = Inl e) \<or> (\<not> bad i \<and> (\<exists>t'. f i t = Inr t' \<and> I i t'))"
  shows "if (\<exists>i<n. bad i) then forM (rev [0..<n]) f s = Inl e
         else (\<exists>t. forM (rev [0..<n]) f s = Inr t \<and> I 0 t)"
  using assms
proof (induction n arbitrary: s)
  case 0
  then show ?case by simp
next
  case (Suc n)
  have rec: "\<And>i t. i < n \<Longrightarrow> I (Suc i) t \<Longrightarrow>
        (bad i \<and> f i t = Inl e) \<or> (\<not> bad i \<and> (\<exists>t'. f i t = Inr t' \<and> I i t'))"
    using Suc.prems(2) by (meson less_Suc_eq)
  from Suc.prems(2)[of n s] Suc.prems(1)
  consider "bad n" "f n s = Inl e" | t' where "\<not> bad n" "f n s = Inr t'" "I n t'"
    by blast
  then show ?case
  proof cases
    case 1
    then show ?thesis by auto
  next
    case 2
    have "(\<exists>i<Suc n. bad i) \<longleftrightarrow> (\<exists>i<n. bad i)"
      using 2(1) by (metis less_Suc_eq)
    then show ?thesis using Suc.IH[OF 2(3) rec] 2(2) by simp
  qed
qed

lemma dot_loop_y:
  assumes Q: "mat m m Q" and b: "length b = m" and y: "length y = m" and i: "i < m"
  shows "\<exists>y'. forM [0..<m] (\<lambda>j y.
                bnd (rd y i) (\<lambda>yi. bnd (rd2 Q j i) (\<lambda>q. bnd (rd b j) (\<lambda>bj.
                  wr y i (yi + q * bj))))) y = Inr y' \<and> length y' = m \<and>
          (\<forall>i'<m. y' ! i' = (if i' = i then y ! i + (\<Sum>j<m. Q ! j ! i * b ! j) else y ! i'))"
proof -
  let ?f = "\<lambda>j y. bnd (rd y i) (\<lambda>yi. bnd (rd2 Q j i) (\<lambda>q. bnd (rd b j) (\<lambda>bj.
                  wr y i (yi + q * bj))))"
  let ?I = "\<lambda>j z. length z = m \<and>
      (\<forall>i'<m. z ! i' = (if i' = i then y ! i + (\<Sum>j'<j. Q ! j' ! i * b ! j') else y ! i'))"
  have "\<exists>t. forM [0..<m] ?f y = Inr t \<and> ?I m t"
  proof (rule forM_upt_rule[where I = ?I])
    show "?I 0 y" using y by simp
  next
    fix j z assume j: "0 \<le> j" "j < m" and z: "?I j z"
    have "?f j z = Inr (z[i := z ! i + Q ! j ! i * b ! j])"
      using z i j b rd2_ok[OF Q j(2) i] by simp
    moreover have "?I (Suc j) (z[i := z ! i + Q ! j ! i * b ! j])"
      using z i by (auto simp: nth_list_update)
    ultimately show "\<exists>t'. ?f j z = Inr t' \<and> ?I (Suc j) t'" by blast
  qed simp
  then show ?thesis by blast
qed

lemma qtb_loop:
  assumes Q: "mat m m Q" and b: "length b = m"
  shows "\<exists>y. forM [0..<m] (\<lambda>i y.
              forM [0..<m] (\<lambda>j y.
                bnd (rd y i) (\<lambda>yi. bnd (rd2 Q j i) (\<lambda>q. bnd (rd b j) (\<lambda>bj.
                  wr y i (yi + q * bj))))) y)
              (replicate m 0) = Inr y \<and> length y = m \<and>
          (\<forall>i<m. y ! i = (\<Sum>j<m. Q ! j ! i * b ! j))"
proof -
  let ?g = "\<lambda>i y. forM [0..<m] (\<lambda>j y.
                bnd (rd y i) (\<lambda>yi. bnd (rd2 Q j i) (\<lambda>q. bnd (rd b j) (\<lambda>bj.
                  wr y i (yi + q * bj))))) y"
  let ?I = "\<lambda>i z. length z = m \<and>
      (\<forall>i'<m. z ! i' = (if i' < i then (\<Sum>j<m. Q ! j ! i' * b ! j) else 0))"
  have "\<exists>t. forM [0..<m] ?g (replicate m 0) = Inr t \<and> ?I m t"
  proof (rule forM_upt_rule[where I = ?I])
    show "?I 0 (replicate m 0)" by simp
  next
    fix i z assume i: "0 \<le> i" "i < m" and z: "?I i z"
    then have lz: "length z = m" by simp
    from dot_loop_y[OF Q b lz i(2)] obtain z' where z': "?g i z = Inr z'" "length z' = m"
      "\<forall>i'<m. z' ! i' = (if i' = i then z ! i + (\<Sum>j<m. Q ! j ! i * b ! j) else z ! i')"
      by blast
    have "?I (Suc i) z'" using z z'(2,3) i by (auto simp: less_Suc_eq)
    then show "\<exists>t'. ?g i z = Inr t' \<and> ?I (Suc i) t'" using z'(1) by blast
  qed simp
  then show ?thesis by auto
qed

lemma back_sum_loop:
  assumes R: "mat m n R" and x: "length x = n" and i: "i < n" "i < m"
  shows "forM [Suc i..<n] (\<lambda>j sum.
                bnd (rd2 R i j) (\<lambda>r. bnd (rd x j) (\<lambda>xj. Inr (sum + r * xj)))) 0
         = Inr (\<Sum>j = Suc i..<n. R ! i ! j * x ! j)"
proof -
  let ?f = "\<lambda>j (sum::real). bnd (rd2 R i j) (\<lambda>r. bnd (rd x j) (\<lambda>xj. Inr (sum + r * xj)))"
  let ?I = "\<lambda>j (s::real). s = (\<Sum>j' = Suc i..<j. R ! i ! j' * x ! j')"
  have "\<exists>t. forM [Suc i..<n] ?f 0 = Inr t \<and> ?I n t"
  proof (rule forM_upt_rule[where I = ?I])
    show "Suc i \<le> n" using i by simp
    show "?I (Suc i) 0" by simp
  next
    fix j s assume j: "Suc i \<le> j" "j < n" and s: "?I j s"
    have "?f j s = Inr (s + R ! i ! j * x ! j)"
      using rd2_ok[OF R i(2) j(2)] x j by simp
    then show "\<exists>t'. ?f j s = Inr t' \<and> ?I (Suc j) t'" using s j by simp
  qed
  then show ?thesis by simp
qed

lemma back_substitution_loop:
  assumes R: "mat m n R" and y: "length y = m" and nm: "n \<le> m"
  defines "body \<equiv> (\<lambda>i x.
         bnd (forM [Suc i..<n] (\<lambda>j sum.
                bnd (rd2 R i j) (\<lambda>r. bnd (rd x j) (\<lambda>xj. Inr (sum + r * xj)))) 0) (\<lambda>sum.
         bnd (rd y i) (\<lambda>yi.
         let val = yi - sum in
         bnd (rd2 R i i) (\<lambda>diag.
         if \<bar>diag\<bar> < eps12 then Inl SingularSystem
         else wr x i (val / diag)))))"
  shows "if (\<exists>i<n. \<bar>R ! i ! i\<bar> < eps12)
         then forM (rev [0..<n]) body (replicate n 0) = Inl SingularSystem
         else (\<exists>x. forM (rev [0..<n]) body (replicate n 0) = Inr x \<and> length x = n \<and>
                (\<forall>i<n. x ! i = (y ! i - (\<Sum>j = Suc i..<n. R ! i ! j * x ! j)) / R ! i ! i))"
proof -
  let ?I = "\<lambda>k x. length x = n \<and>
     (\<forall>i<n. k \<le> i \<longrightarrow> x ! i = (y ! i - (\<Sum>j = Suc i..<n. R ! i ! j * x ! j)) / R ! i ! i)"
  have "if (\<exists>i<n. \<bar>R ! i ! i\<bar> < eps12)
         then forM (rev [0..<n]) body (replicate n 0) = Inl SingularSystem
         else (\<exists>x. forM (rev [0..<n]) body (replicate n 0) = Inr x \<and> ?I 0 x)"
  proof (rule forM_down_rule[where I = ?I])
    show "?I n (replicate n 0)" by simp
  next
    fix i x assume i: "i < n" and x: "?I (Suc i) x"
    then have lx: "length x = n" by simp
    have im: "i < m" using i nm by simp
    let ?v = "(y ! i - (\<Sum>j = Suc i..<n. R ! i ! j * x ! j)) / R ! i ! i"
    have b: "body i x = (if \<bar>R ! i ! i\<bar> < eps12 then Inl SingularSystem else Inr (x[i := ?v]))"
      unfolding body_def
      using back_sum_loop[OF R lx i im] rd2_ok[OF R im i] y im lx i by (simp add: Let_def)
    have "?I i (x[i := ?v])" if "\<not> \<bar>R ! i ! i\<bar> < eps12"
    proof -
      have same: "(\<Sum>j = Suc i'..<n. R ! i' ! j * x[i := ?v] ! j) = (\<Sum>j = Suc i'..<n. R ! i' ! j * x ! j)"
        if "i \<le> i'" for i'
        by (rule sum.cong) (use that in auto)
      show ?thesis
        using x lx i by (auto simp: same nth_list_update le_Suc_eq)
    qed
    then show "(\<bar>R ! i ! i\<bar> < eps12 \<and> body i x = Inl SingularSystem) \<or>
       (\<not> \<bar>R ! i ! i\<bar> < eps12 \<and> (\<exists>t'. body i x = Inr t' \<and> ?I i t'))"
      using b by auto
  qed
  then show ?thesis by (auto split: if_splits)
qed

lemma solve_qr_ok:
  assumes Q: "mat m m Q" and R: "mat m n R" and nm: "n \<le> m" and m: "0 < m"
  shows "(solve_qr Q R b = Inl DimensionMismatch \<longleftrightarrow> length b \<noteq> m)
       \<and> (length b = m \<longrightarrow>
            (solve_qr Q R b = Inl SingularSystem \<longleftrightarrow> (\<exists>i<n. \<bar>R ! i ! i\<bar> < eps12)))
       \<and> (length b = m \<longrightarrow> (\<forall>i<n. \<not> \<bar>R ! i ! i\<bar> < eps12) \<longrightarrow>
            (\<exists>x. solve_qr Q R b = Inr x \<and> length x = n \<and>
               (\<forall>i<n. x ! i = ((\<Sum>j<m. Q ! j ! i * b ! j) - (\<Sum>j = Suc i..<n. R ! i ! j * x ! j))
                              / R ! i ! i)))"
proof (cases "length b = m")
  case False
  have "rd R 0 = Inr (R ! 0)" using R m by (simp add: mat_def)
  then show ?thesis using False Q by (simp add: solve_qr_def mat_def)
next
  case True
  have hd: "rd R 0 = Inr (R ! 0)" "length (R ! 0) = n" "length Q = m"
    using R Q m by (simp_all add: mat_def)
  from qtb_loop[OF Q True] obtain y where y: "forM [0..<m] (\<lambda>i y.
              forM [0..<m] (\<lambda>j y.
                bnd (rd y i) (\<lambda>yi. bnd (rd2 Q j i) (\<lambda>q. bnd (rd b j) (\<lambda>bj.
                  wr y i (yi + q * bj))))) y)
              (replicate m 0) = Inr y" "length y = m" "\<forall>i<m. y ! i = (\<Sum>j<m. Q ! j ! i * b ! j)"
    by blast
  have yi: "y ! i = (\<Sum>j<m. Q ! j ! i * b ! j)" if "i < n" for i
    using y(3) that nm by simp
  note bs = back_substitution_loop[OF R y(2) nm]
  have eq: "solve_qr Q R b = forM (rev [0..<n]) (\<lambda>i x.
         bnd (forM [Suc i..<n] (\<lambda>j sum.
                bnd (rd2 R i j) (\<lambda>r. bnd (rd x j) (\<lambda>xj. Inr (sum + r * xj)))) 0) (\<lambda>sum.
         bnd (rd y i) (\<lambda>yi.
         let val = yi - sum in
         bnd (rd2 R i i) (\<lambda>diag.
         if \<bar>diag\<bar> < eps12 then Inl SingularSystem
         else wr x i (val / diag))))) (replicate n 0)"
    using True by (simp add: solve_qr_def hd y(1))
  show ?thesis
  proof (cases "\<exists>i<n. \<bar>R ! i ! i\<bar> < eps12")
    case bad: True
    then show ?thesis using bs eq True by (auto split: if_splits)
  next
    case good: False
    with bs obtain x where x: "solve_qr Q R b = Inr x" "length x = n"
      "\<forall>i<n. x ! i = (y ! i - (\<Sum>j = Suc i..<n. R ! i ! j * x ! j)) / R ! i ! i"
      unfolding eq by (auto split: if_splits)
    have "\<forall>i<n. x ! i = ((\<Sum>j<m. Q ! j ! i * b ! j) - (\<Sum>j = Suc i..<n. R ! i ! j * x ! j)) / R ! i ! i"
      using x(3) yi by simp
    then show ?thesis using x(1,2) good True by auto
  qed
qed

text \<open>
  Claim C5 as the claim states it (for every \<open>m \<ge> n\<close>, hence also \<open>m = n = 0\<close>), refuted:
  \<^verbatim>\<open>solve_qr\<close> reads \<^verbatim>\<open>R[0].size()\<close> before it compares \<^verbatim>\<open>b.size()\<close> with \<open>m\<close>.
  With no rows in \<open>Q\<close> and \<open>R\<close> that read is out of bounds: the empty right-hand side
  does not give the empty solution, and a right-hand side of the wrong length does not
  give DimensionMismatch.
\<close>

theorem solve_qr_no_rows:
  "mat 0 0 [] \<and> solve_qr [] [] [] = Inl OutOfBounds \<and> solve_qr [] [] [1] = Inl OutOfBounds"
  by (simp add: mat_def solve_qr_def access_defs)

text \<open>
  Claim C5, amended by \<open>m \<ge> 1\<close>: for \<open>Q\<close> of shape m-by-m and \<open>R\<close> of shape m-by-n with
  \<open>1 \<le> m\<close> and \<open>n \<le> m\<close>, \<^verbatim>\<open>solve_qr(Q, R, b)\<close> fails with DimensionMismatch
  exactly when the length of \<open>b\<close> is not \<open>m\<close>. Otherwise it fails with SingularSystem
  exactly when some diagonal entry \<open>R(i,i)\<close>, \<open>i < n\<close>, has magnitude below \<open>1e-12\<close>, and
  else returns the vector \<open>x\<close> of length \<open>n\<close> with
  \<open>x(i) = (y(i) - (\<Sum>j>i. R(i,j) * x(j))) / R(i,i)\<close>, where \<open>y(i) = (\<Sum>j. Q(j,i) * b(j))\<close>
  is the \<open>i\<close>-th entry of the product of the transpose of \<open>Q\<close> with \<open>b\<close>.
\<close>

theorem solve_qr_back_substitution:
  assumes "mat m m Q" and "mat m n R" and "n \<le> m" and "0 < m"
  shows "(solve_qr Q R b = Inl DimensionMismatch \<longleftrightarrow> length b \<noteq> m)
       \<and> (length b = m \<longrightarrow>
            (solve_qr Q R b = Inl SingularSystem \<longleftrightarrow> (\<exists>i<n. \<bar>R ! i ! i\<bar> < eps12)))
       \<and> (length b = m \<longrightarrow> (\<forall>i<n. \<not> \<bar>R ! i ! i\<bar> < eps12) \<longrightarrow>
            (\<exists>x. solve_qr Q R b = Inr x \<and> length x = n \<and>
               (\<forall>i<n. x ! i = ((\<Sum>j<m. Q ! j ! i * b ! j) - (\<Sum>j = Suc i..<n. R ! i ! j * x ! j))
                              / R ! i ! i)))"
  using solve_qr_ok[OF assms] .

theorem solve_qr_back_substitution_witness:
  "mat 2 2 [[1, 0], [0, 1]] \<and> mat 2 2 [[2, 1], [0, 4]] \<and> (2::nat) \<le> 2 \<and> (0::nat) < 2
   \<and> length [4, 8 :: real] = 2
   \<and> solve_qr [[1, 0], [0, 1]] [[2, 1], [0, 4]] [4, 8] \<noteq> Inl DimensionMismatch
   \<and> solve_qr [[1, 0], [0, 1]] [[2, 1], [0, 4]] [4, 8] \<noteq> Inl SingularSystem
   \<and> (\<exists>x. solve_qr [[1, 0], [0, 1]] [[2, 1], [0, 4]] [4, 8] = Inr x \<and> length x = 2
        \<and> x ! 1 = (\<Sum>j<2. [[1, 0], [0, 1]] ! j ! 1 * [4, 8] ! j) / 4)"
proof -
  have Q: "mat 2 2 [[1, 0], [0, 1]]" and R: "mat 2 2 [[2, 1], [0, 4]]"
    by (simp_all add: mat_def)
  have d: "\<not> (\<exists>i<2. \<bar>[[2, 1], [0, 4 :: real]] ! i ! i\<bar> < eps12)"
  proof -
    have "\<not> \<bar>[[2, 1], [0, 4 :: real]] ! i ! i\<bar> < eps12" if "i < 2" for i
    proof -
      from that have "i = 0 \<or> i = 1" by auto
      then show ?thesis by (auto simp: eps12_def)
    qed
    then show ?thesis by blast
  qed
  from solve_qr_back_substitution[OF Q R, of "[4, 8]"] d
  obtain x where x: "solve_qr [[1, 0], [0, 1]] [[2, 1], [0, 4]] [4, 8] = Inr x" "length x = 2"
    "\<forall>i<2. x ! i = ((\<Sum>j<2. [[1, 0], [0, 1]] ! j ! i * [4, 8] ! j)
                    - (\<Sum>j = Suc i..<2. [[2, 1], [0, 4]] ! i ! j * x ! j)) / [[2, 1], [0, 4]] ! i ! i"
    by auto
  from x(3) have "x ! 1 = (\<Sum>j<2. [[1, 0], [0, 1]] ! j ! 1 * [4, 8] ! j) / 4"
    by simp
  then show ?thesis using Q R x(1,2) by simp
qed

section \<open>ConditionEstimator\<close>

lemma pinv_B: "pseudoinverse [[1,2],[3,4],[5,6]] = Inr [[-32/24, -8/24, 16/24],[26/24, 8/24, -10/24]]"
  by (simp add: pseudoinverse_def transpose_m_def multiply_def gj_defs eval_simps)

lemma foldl_sq: "foldl (\<lambda>s v. s + v * v) a xs = a + (\<Sum>v\<leftarrow>xs. v * v)" for a :: real
  by (induction xs arbitrary: a) (simp_all add: add.assoc)

lemma foldl_rows:
  "foldl (\<lambda>sum row. foldl (\<lambda>sum v. sum + v * v) sum row) a A
     = a + (\<Sum>row\<leftarrow>A. \<Sum>v\<leftarrow>row. v * v)" for a :: real
  by (induction A arbitrary: a) (simp_all add: foldl_sq add.assoc)

lemma frobenius_norm_sum: "frobenius_norm A = sqrt (\<Sum>row\<leftarrow>A. \<Sum>v\<leftarrow>row. v * v)"
  by (simp add: frobenius_norm_def foldl_rows)

lemma cond_B:
  "\<exists>c. condition_number [[1,2],[3,4],[5,6]] = Inr c \<and> 0 < c \<and> c < 10 ^ 4"
proof -
  have c: "condition_number [[1,2],[3,4],[5,6]] = Inr (sqrt 91 * sqrt (91 / 24))"
    by (simp add: condition_number_def pinv_B frobenius_norm_sum)
  have b: "sqrt 91 < 10" "sqrt (91 / 24) < 2"
    by (rule real_less_lsqrt; simp)+
  have p: "0 < sqrt 91" "0 < sqrt (91 / 24)" by simp_all
  have "sqrt 91 * sqrt (91 / 24) < 10 * 2"
    by (rule mult_strict_mono) (use b p in simp_all)
  then show ?thesis using c p by simp
qed

text \<open>
  Claim C9: when \<^verbatim>\<open>pseudoinverse(A)\<close> returns \<open>P\<close>, \<^verbatim>\<open>condition_number(A)\<close> is the
  product of the Frobenius norms of \<open>A\<close> and \<open>P\<close>, the Frobenius norm being the square
  root of the sum of the squares of all entries; when \<^verbatim>\<open>pseudoinverse(A)\<close> fails,
  \<^verbatim>\<open>condition_number(A)\<close> fails with the same condition; and for the 3-by-2 matrix
  with rows (1, 2), (3, 4), (5, 6) the result lies strictly between 0 and 1e4.
\<close>

theorem condition_number_frobenius:
  "(pseudoinverse A = Inr P \<longrightarrow>
      condition_number A = Inr (frobenius_norm A * frobenius_norm P))
   \<and> (pseudoinverse A = Inl e \<longrightarrow> condition_number A = Inl e)
   \<and> frobenius_norm A = sqrt (\<Sum>row\<leftarrow>A. \<Sum>v\<leftarrow>row. v * v)
   \<and> (\<exists>c. condition_number [[1, 2], [3, 4], [5, 6]] = Inr c \<and> 0 < c \<and> c < 10 ^ 4)"
  using cond_B by (simp add: condition_number_def frobenius_norm_sum)

theorem condition_number_frobenius_witness:
  "pseudoinverse [[1, 2], [3, 4], [5, 6]]
     = Inr [[- 32 / 24, - 8 / 24, 16 / 24], [26 / 24, 8 / 24, - 10 / 24]]
   \<and> condition_number [[1, 2], [3, 4], [5, 6]]
     = Inr (frobenius_norm [[1, 2], [3, 4], [5, 6]]
            * frobenius_norm [[- 32 / 24, - 8 / 24, 16 / 24], [26 / 24, 8 / 24, - 10 / 24]])
   \<and> pseudoinverse [[1 / 10 ^ 7]] = Inl SingularMatrix
   \<and> condition_number [[1 / 10 ^ 7]] = Inl SingularMatrix"
proof -
  have s: "pseudoinverse [[1 / 10 ^ 7]] = Inl SingularMatrix"
    by (simp add: pseudoinverse_def transpose_m_def multiply_def gj_defs eval_simps)
  show ?thesis
    using condition_number_frobenius[of "[[1, 2], [3, 4], [5, 6]]"
        "[[- 32 / 24, - 8 / 24, 16 / 24], [26 / 24, 8 / 24, - 10 / 24]]" SingularMatrix]
      condition_number_frobenius[of "[[1 / 10 ^ 7]]" "[]" SingularMatrix] pinv_B s
    by simp
qed

section \<open>HouseholderQR: shapes and the lower triangle\<close>

lemma forM_inv:
  assumes "I s"
    and step: "\<And>i t. i \<in> set xs \<Longrightarrow> I t \<Longrightarrow> \<exists>t'. f i t = Inr t' \<and> I t'"
  shows "\<exists>t. forM xs f s = Inr t \<and> I t"
  using assms
proof (induction xs arbitrary: s)
  case Nil
  then show ?case by simp
next
  case (Cons i xs)
  from Cons.prems(2)[of i s] Cons.prems(1) obtain t' where t': "f i s = Inr t'" "I t'"
    by auto
  from Cons.IH[OF t'(2)] Cons.prems(2) show ?case using t'(1) by simp
qed

lemma identity_ok:
  "\<exists>I. identity n = Inr I \<and> mat n n I \<and> (\<forall>i<n. \<forall>j<n. I ! i ! j = (if i = j then 1 else 0))"
proof -
  let ?I = "\<lambda>i D. mat n n D \<and> (\<forall>i'<n. \<forall>j'<n. D ! i' ! j' = (if i' = j' \<and> i' < i then 1 else 0))"
  have "\<exists>t. forM [0..<n] (\<lambda>i I. wr2 I i i 1) (replicate n (replicate n 0)) = Inr t \<and> ?I n t"
  proof (rule forM_upt_rule[where I = ?I])
    show "?I 0 (replicate n (replicate n 0))" by (simp add: mat_replicate)
  next
    fix i D assume i: "0 \<le> i" "i < n" and D: "?I i D"
    then have mD: "mat n n D" by simp
    have "?I (Suc i) (D[i := (D ! i)[i := 1]])"
      using D i by (auto simp: mat_upd2 nth_upd2 less_Suc_eq)
    then show "\<exists>t'. wr2 D i i 1 = Inr t' \<and> ?I (Suc i) t'"
      using wr2_ok[OF mD i(2) i(2)] by simp
  qed simp
  then show ?thesis by (auto simp: identity_def)
qed

lemma zero_lower_ok:
  assumes R: "mat m n R"
  shows "\<exists>R'. zero_lower m n R = Inr R' \<and> mat m n R' \<and>
           (\<forall>i<m. \<forall>j<n. R' ! i ! j = (if j < i then 0 else R ! i ! j))"
proof -
  have inner: "\<exists>D'. forM [0..<min i n] (\<lambda>j R. wr2 R i j 0) D = Inr D' \<and> mat m n D' \<and>
      (\<forall>i'<m. \<forall>j'<n. D' ! i' ! j' = (if i' = i \<and> j' < i then 0 else D ! i' ! j'))"
    if i: "i < m" and D: "mat m n D" for i D
  proof -
    let ?I = "\<lambda>j E. mat m n E \<and>
      (\<forall>i'<m. \<forall>j'<n. E ! i' ! j' = (if i' = i \<and> j' < j then 0 else D ! i' ! j'))"
    have "\<exists>t. forM [0..<min i n] (\<lambda>j R. wr2 R i j 0) D = Inr t \<and> ?I (min i n) t"
    proof (rule forM_upt_rule[where I = ?I])
      show "?I 0 D" using D by simp
    next
      fix j E assume j: "0 \<le> j" "j < min i n" and E: "?I j E"
      then have mE: "mat m n E" and jn: "j < n" by simp_all
      have "?I (Suc j) (E[i := (E ! i)[j := 0]])"
        using E i by (auto simp: mat_upd2 nth_upd2 less_Suc_eq)
      then show "\<exists>t'. wr2 E i j 0 = Inr t' \<and> ?I (Suc j) t'"
        using wr2_ok[OF mE i jn] by simp
    qed simp
    then show ?thesis by auto
  qed
  let ?I = "\<lambda>i D. mat m n D \<and>
      (\<forall>i'<m. \<forall>j'<n. D ! i' ! j' = (if i' < i \<and> j' < i' then 0 else R ! i' ! j'))"
  have "\<exists>t. forM [0..<m] (\<lambda>i R. forM [0..<min i n] (\<lambda>j R. wr2 R i j 0) R) R = Inr t \<and> ?I m t"
  proof (rule forM_upt_rule[where I = ?I])
    show "?I 0 R" using R by simp
  next
    fix i D assume i: "0 \<le> i" "i < m" and D: "?I i D"
    from inner[OF i(2)] D obtain D' where D': "forM [0..<min i n] (\<lambda>j R. wr2 R i j 0) D = Inr D'"
      "mat m n D'" "\<forall>i'<m. \<forall>j'<n. D' ! i' ! j' = (if i' = i \<and> j' < i then 0 else D ! i' ! j')"
      by blast
    have "?I (Suc i) D'" using D D'(2,3) i by (auto simp: less_Suc_eq)
    then show "\<exists>t'. forM [0..<min i n] (\<lambda>j R. wr2 R i j 0) D = Inr t' \<and> ?I (Suc i) t'"
      using D'(1) by blast
  qed simp
  then show ?thesis by (auto simp: zero_lower_def)
qed

text \<open>The reflections keep the shapes of \<open>A\<close> and \<open>Q\<close>, and no index leaves them.\<close>

lemma proj_loop_ok:
  assumes "\<And>k. k < length v \<Longrightarrow> \<exists>a. g k = Inr a"
  shows "\<exists>p. forM [0..<length v] (\<lambda>k proj. bnd (rd v k) (\<lambda>vk. bnd (g k) (\<lambda>a. Inr (proj + vk * a)))) (0::real) = Inr p"
proof -
  have "\<exists>t. forM [0..<length v] (\<lambda>k proj. bnd (rd v k) (\<lambda>vk. bnd (g k) (\<lambda>a. Inr (proj + vk * a)))) (0::real) = Inr t \<and> True"
  proof (rule forM_inv[where I = "\<lambda>_. True"])
    fix k and t :: real assume "k \<in> set [0..<length v]"
    then have k: "k < length v" by simp
    from assms[OF k] obtain a where "g k = Inr a" by blast
    then show "\<exists>t'. bnd (rd v k) (\<lambda>vk. bnd (g k) (\<lambda>a. Inr (t + vk * a))) = Inr t' \<and> True"
      using k by simp
  qed simp
  then show ?thesis by blast
qed

lemma reflect_A_ok:
  assumes A: "mat m n A" and v: "start + length v \<le> m"
  shows "\<exists>A'. reflect_A v start col n A = Inr A' \<and> mat m n A'"
proof -
  let ?body = "\<lambda>j A.
       bnd (forM [0..<length v] (\<lambda>k proj.
              bnd (rd v k) (\<lambda>vk. bnd (rd2 A (start + k) j) (\<lambda>a. Inr (proj + vk * a)))) 0)
         (\<lambda>proj. let proj = proj * 2 in
            forM [0..<length v] (\<lambda>k A.
              bnd (rd2 A (start + k) j) (\<lambda>a. bnd (rd v k) (\<lambda>vk.
                wr2 A (start + k) j (a - proj * vk)))) A)"
  have "\<exists>t. forM [col..<n] ?body A = Inr t \<and> mat m n t"
  proof (rule forM_inv[where I = "mat m n"])
    show "mat m n A" by fact
  next
    fix j D assume "j \<in> set [col..<n]" and D: "mat m n D"
    then have j: "j < n" by simp
    have rdD: "rd2 E (start + k) j = Inr (E ! (start + k) ! j)" if "k < length v" "mat m n E" for k E
      using rd2_ok[OF that(2) _ j, of "start + k"] that(1) v by simp
    from proj_loop_ok[of v "\<lambda>k. rd2 D (start + k) j"] rdD D
    obtain p where p: "forM [0..<length v] (\<lambda>k proj.
              bnd (rd v k) (\<lambda>vk. bnd (rd2 D (start + k) j) (\<lambda>a. Inr (proj + vk * a)))) 0 = Inr p"
      by blast
    have "\<exists>t. forM [0..<length v] (\<lambda>k A.
              bnd (rd2 A (start + k) j) (\<lambda>a. bnd (rd v k) (\<lambda>vk.
                wr2 A (start + k) j (a - q * vk)))) D = Inr t \<and> mat m n t" for q
    proof (rule forM_inv[where I = "mat m n"])
      show "mat m n D" by fact
    next
      fix k E assume "k \<in> set [0..<length v]" and E: "mat m n E"
      then have k: "k < length v" by simp
      then have km: "start + k < m" using v by simp
      show "\<exists>t'. bnd (rd2 E (start + k) j) (\<lambda>a. bnd (rd v k) (\<lambda>vk.
                wr2 E (start + k) j (a - q * vk))) = Inr t' \<and> mat m n t'"
        using rdD[OF k E] k wr2_ok[OF E km j] mat_upd2[OF E km] by simp
    qed
    then show "\<exists>t'. ?body j D = Inr t' \<and> mat m n t'"
      by (simp add: p Let_def)
  qed
  then show ?thesis by (simp add: reflect_A_def)
qed

lemma reflect_Q_ok:
  assumes Q: "mat m m Q" and v: "start + length v \<le> m"
  shows "\<exists>Q'. reflect_Q v start Q = Inr Q' \<and> mat m m Q'"
proof -
  have len: "length Q = m" using Q by (simp add: mat_def)
  let ?body = "\<lambda>j Q.
       bnd (forM [0..<length v] (\<lambda>k proj.
              bnd (rd v k) (\<lambda>vk. bnd (rd2 Q j (start + k)) (\<lambda>q. Inr (proj + vk * q)))) 0)
         (\<lambda>proj. let proj = proj * 2 in
            forM [0..<length v] (\<lambda>k Q.
              bnd (rd2 Q j (start + k)) (\<lambda>q. bnd (rd v k) (\<lambda>vk.
                wr2 Q j (start + k) (q - proj * vk)))) Q)"
  have "\<exists>t. forM [0..<m] ?body Q = Inr t \<and> mat m m t"
  proof (rule forM_inv[where I = "mat m m"])
    show "mat m m Q" by fact
  next
    fix j D assume "j \<in> set [0..<m]" and D: "mat m m D"
    then have j: "j < m" by simp
    have rdD: "rd2 E j (start + k) = Inr (E ! j ! (start + k))" if "k < length v" "mat m m E" for k E
      using rd2_ok[OF that(2) j, of "start + k"] that(1) v by simp
    from proj_loop_ok[of v "\<lambda>k. rd2 D j (start + k)"] rdD D
    obtain p where p: "forM [0..<length v] (\<lambda>k proj.
              bnd (rd v k) (\<lambda>vk. bnd (rd2 D j (start + k)) (\<lambda>q. Inr (proj + vk * q)))) 0 = Inr p"
      by blast
    have "\<exists>t. forM [0..<length v] (\<lambda>k Q.
              bnd (rd2 Q j (start + k)) (\<lambda>q. bnd (rd v k) (\<lambda>vk.
                wr2 Q j (start + k) (q - r * vk)))) D = Inr t \<and> mat m m t" for r
    proof (rule forM_inv[where I = "mat m m"])
      show "mat m m D" by fact
    next
      fix k E assume "k \<in> set [0..<length v]" and E: "mat m m E"
      then have k: "k < length v" by simp
      then have km: "start + k < m" using v by simp
      show "\<exists>t'. bnd (rd2 E j (start + k)) (\<lambda>q. bnd (rd v k) (\<lambda>vk.
                wr2 E j (start + k) (q - r * vk))) = Inr t' \<and> mat m m t'"
        using rdD[OF k E] k wr2_ok[OF E j km] mat_upd2[OF E j] by simp
    qed
    then show "\<exists>t'. ?body j D = Inr t' \<and> mat m m t'"
      by (simp add: p Let_def)
  qed
  then show ?thesis by (simp add: reflect_Q_def len)
qed

lemma householder_reflect_ok:
  assumes A: "mat m n A" and Q: "mat m m Q" and start: "start < m" and col: "col < n"
  shows "\<exists>A' Q'. householder_reflect A Q start col = Inr (A', Q') \<and> mat m n A' \<and> mat m m Q'"
proof -
  have len: "length A = m" "rd A 0 = Inr (A ! 0)" "length (A ! 0) = n"
    using A start by (simp_all add: mat_def)
  have "\<exists>x. forM [start..<m] (\<lambda>i x. bnd (rd2 A i col) (\<lambda>a. wr x (i - start) a))
             (replicate (m - start) 0) = Inr x \<and> length x = m - start"
  proof (rule forM_inv[where I = "\<lambda>x. length x = m - start"])
    fix i and x :: vec assume "i \<in> set [start..<m]" and x: "length x = m - start"
    then have i: "start \<le> i" "i < m" by simp_all
    then show "\<exists>t'. bnd (rd2 A i col) (\<lambda>a. wr x (i - start) a) = Inr t' \<and> length t' = m - start"
      using rd2_ok[OF A i(2) col] x by simp
  qed simp
  then obtain x where x: "forM [start..<m] (\<lambda>i x. bnd (rd2 A i col) (\<lambda>a. wr x (i - start) a))
             (replicate (m - start) 0) = Inr x" "length x = m - start" by blast
  have x0: "0 < length x" using x(2) start by simp
  have refl: "\<exists>A' Q'. bnd (reflect_A v start col n A) (\<lambda>A.
      bnd (reflect_Q v start Q) (\<lambda>Q. Inr (A, Q))) = Inr (A', Q') \<and> mat m n A' \<and> mat m m Q'"
    if "length v = m - start" for v
  proof -
    have sv: "start + length v \<le> m" using that start by simp
    from reflect_A_ok[OF A sv] obtain A' where A': "reflect_A v start col n A = Inr A'" "mat m n A'"
      by blast
    from reflect_Q_ok[OF Q sv] obtain Q' where Q': "reflect_Q v start Q = Inr Q'" "mat m m Q'"
      by blast
    show ?thesis using A' Q' by simp
  qed
  show ?thesis
    using A Q x0 refl[of "map (\<lambda>t. t / sqrt (sumsq (x[0 := x ! 0 + (if 0 \<le> x ! 0 then sqrt (sumsq x) else - sqrt (sumsq x))]))) (x[0 := x ! 0 + (if 0 \<le> x ! 0 then sqrt (sumsq x) else - sqrt (sumsq x))])"]
    unfolding householder_reflect_def
    by (simp add: len x Let_def del: real_sqrt_eq_zero_cancel_iff)
qed

lemma qr_decompose_ok:
  assumes A: "mat m n A" and m: "0 < m"
  shows "\<exists>Q R. qr_decompose A = Inr (Q, R) \<and> mat m m Q \<and> mat m n R \<and>
           (\<forall>i<m. \<forall>j<n. j < i \<longrightarrow> R ! i ! j = 0)"
proof -
  have len: "length A = m" "rd A 0 = Inr (A ! 0)" "length (A ! 0) = n"
    using A m by (simp_all add: mat_def)
  from identity_ok[of m] obtain I where I: "identity m = Inr I" "mat m m I" by blast
  have "\<exists>t. forM [0..<min m n] (\<lambda>col (R, Q). householder_reflect R Q col col) (A, I) = Inr t
         \<and> (case t of (R, Q) \<Rightarrow> mat m n R \<and> mat m m Q)"
  proof (rule forM_inv[where I = "\<lambda>(R, Q). mat m n R \<and> mat m m Q"])
    show "case (A, I) of (R, Q) \<Rightarrow> mat m n R \<and> mat m m Q" using A I by simp
  next
    fix col t assume c: "col \<in> set [0..<min m n]" and t: "case t of (R, Q) \<Rightarrow> mat m n R \<and> mat m m Q"
    obtain R Q where [simp]: "t = (R, Q)" by (cases t)
    from c have "col < m" "col < n" by simp_all
    from householder_reflect_ok[OF _ _ this, of R Q] t
    show "\<exists>t'. (case t of (R, Q) \<Rightarrow> householder_reflect R Q col col) = Inr t' \<and>
            (case t' of (R, Q) \<Rightarrow> mat m n R \<and> mat m m Q)"
      by auto
  qed
  then obtain R1 Q1 where l: "forM [0..<min m n] (\<lambda>col (R, Q). householder_reflect R Q col col) (A, I) = Inr (R1, Q1)"
    "mat m n R1" "mat m m Q1" by auto
  from zero_lower_ok[OF l(2)] obtain R where R: "zero_lower m n R1 = Inr R" "mat m n R"
    "\<forall>i<m. \<forall>j<n. R ! i ! j = (if j < i then 0 else R1 ! i ! j)" by blast
  from transpose_ok[OF l(3) m] obtain Q where Q: "transpose_m Q1 = Inr Q" "mat m m Q" by blast
  have md: "(if m < n then m else n) = min m n" by simp
  have "qr_decompose A = Inr (Q, R)"
    by (simp only: qr_decompose_def len bnd_simps Let_def md I l(1) R(1) Q(1) prod.case)
  then show ?thesis using Q(2) R(2,3) by simp
qed

text \<open>
  Claim C7: \<^verbatim>\<open>qr_decompose\<close> returns on every m-by-n matrix with at least one row,
  \<open>Q\<close> is m-by-m, \<open>R\<close> is m-by-n, and every entry of \<open>R\<close> strictly below the diagonal is
  exactly zero. The zeros come from the final loop alone, which overwrites the strict
  lower triangle of whatever matrix it is given, with no test of magnitude, and leaves
  the other entries as they are.
\<close>

theorem qr_decompose_lower_zero:
  assumes "mat m n A" and "0 < m"
  shows "(\<exists>Q R. qr_decompose A = Inr (Q, R) \<and> mat m m Q \<and> mat m n R \<and>
            (\<forall>i<m. \<forall>j<n. j < i \<longrightarrow> R ! i ! j = 0))
       \<and> (\<forall>R0. mat m n R0 \<longrightarrow>
            (\<exists>R'. zero_lower m n R0 = Inr R' \<and> mat m n R' \<and>
               (\<forall>i<m. \<forall>j<n. R' ! i ! j = (if j < i then 0 else R0 ! i ! j))))"
  using qr_decompose_ok[OF assms] zero_lower_ok by blast

theorem qr_decompose_lower_zero_witness:
  "mat 2 2 [[7, 0], [24, 25]] \<and> (0::nat) < 2
   \<and> (\<exists>Q R. qr_decompose [[7, 0], [24, 25]] = Inr (Q, R) \<and> mat 2 2 R \<and> R ! 1 ! 0 = 0)
   \<and> mat 2 2 [[1, 2], [3, 4]]
   \<and> (\<exists>R'. zero_lower 2 2 [[1, 2], [3, 4]] = Inr R' \<and> R' ! 1 ! 0 = 0 \<and> R' ! 1 ! 1 = 4)"
proof -
  have A: "mat 2 2 [[7, 0], [24, 25]]" and R0: "mat 2 2 [[1, 2], [3, 4]]" and m: "(0::nat) < 2"
    by (simp_all add: mat_def)
  note t = qr_decompose_lower_zero[OF A m]
  from t obtain Q R where "qr_decompose [[7, 0], [24, 25]] = Inr (Q, R)" "mat 2 2 R"
    "\<forall>i<2. \<forall>j<2. j < i \<longrightarrow> R ! i ! j = 0" by blast
  then have 1: "\<exists>Q R. qr_decompose [[7, 0], [24, 25]] = Inr (Q, R) \<and> mat 2 2 R \<and> R ! 1 ! 0 = 0"
    by force
  from t R0 obtain R' where "zero_lower 2 2 [[1, 2], [3, 4]] = Inr R'"
    "\<forall>i<2. \<forall>j<2. R' ! i ! j = (if j < i then 0 else [[1, 2], [3, 4]] ! i ! j)" by blast
  then have 2: "\<exists>R'. zero_lower 2 2 [[1, 2], [3, 4]] = Inr R' \<and> R' ! 1 ! 0 = 0 \<and> R' ! 1 ! 1 = 4"
    by force
  show ?thesis using A R0 1 2 by simp
qed

section \<open>GaussJordanInverter: one elimination step\<close>

lemma augment_ok:
  assumes A: "mat n n A"
  shows "\<exists>aug. augment n A = Inr aug \<and> mat n (2 * n) aug \<and>
           (\<forall>i<n. \<forall>c<2 * n. aug ! i ! c = (if c < n then A ! i ! c else if c - n = i then 1 else 0))"
proof -
  let ?copy = "\<lambda>i. forM [0..<n] (\<lambda>j aug. bnd (rd2 A i j) (\<lambda>a. wr2 aug i j a))"
  let ?unit = "\<lambda>i. forM [0..<n] (\<lambda>j aug. wr2 aug i (n + j) (if i = j then 1 else 0))"
  have copy: "\<exists>D'. ?copy i D = Inr D' \<and> mat n (2 * n) D' \<and>
      (\<forall>i'<n. \<forall>c<2 * n. D' ! i' ! c = (if i' = i \<and> c < n then A ! i ! c else D ! i' ! c))"
    if i: "i < n" and D: "mat n (2 * n) D" for i D
  proof -
    let ?I = "\<lambda>j E. mat n (2 * n) E \<and>
      (\<forall>i'<n. \<forall>c<2 * n. E ! i' ! c = (if i' = i \<and> c < j then A ! i ! c else D ! i' ! c))"
    have "\<exists>t. ?copy i D = Inr t \<and> ?I n t"
    proof (rule forM_upt_rule[where I = ?I])
      show "?I 0 D" using D by simp
    next
      fix j E assume j: "0 \<le> j" "j < n" and E: "?I j E"
      then have mE: "mat n (2 * n) E" and j2: "j < 2 * n" by simp_all
      have "?I (Suc j) (E[i := (E ! i)[j := A ! i ! j]])"
        using E i j by (auto simp: mat_upd2 nth_upd2 less_Suc_eq)
      then show "\<exists>t'. bnd (rd2 A i j) (\<lambda>a. wr2 E i j a) = Inr t' \<and> ?I (Suc j) t'"
        using wr2_ok[OF mE i j2] rd2_ok[OF A i j(2)] by simp
    qed simp
    then show ?thesis by auto
  qed
  have unit: "\<exists>D'. ?unit i D = Inr D' \<and> mat n (2 * n) D' \<and>
      (\<forall>i'<n. \<forall>c<2 * n. D' ! i' ! c = (if i' = i \<and> n \<le> c then (if c - n = i then 1 else 0) else D ! i' ! c))"
    if i: "i < n" and D: "mat n (2 * n) D" for i D
  proof -
    let ?I = "\<lambda>j E. mat n (2 * n) E \<and>
      (\<forall>i'<n. \<forall>c<2 * n. E ! i' ! c = (if i' = i \<and> n \<le> c \<and> c < n + j then (if c - n = i then 1 else 0) else D ! i' ! c))"
    have "\<exists>t. ?unit i D = Inr t \<and> ?I n t"
    proof (rule forM_upt_rule[where I = ?I])
      show "?I 0 D" using D by simp
    next
      fix j E assume j: "0 \<le> j" "j < n" and E: "?I j E"
      then have mE: "mat n (2 * n) E" and j2: "n + j < 2 * n" by simp_all
      have "?I (Suc j) (E[i := (E ! i)[n + j := (if i = j then 1 else 0)]])"
        using E i j by (auto simp: mat_upd2 nth_upd2 less_Suc_eq)
      then show "\<exists>t'. wr2 E i (n + j) (if i = j then 1 else 0) = Inr t' \<and> ?I (Suc j) t'"
        using wr2_ok[OF mE i j2] by simp
    qed simp
    then show ?thesis by auto
  qed
  let ?I = "\<lambda>i D. mat n (2 * n) D \<and>
      (\<forall>i'<n. \<forall>c<2 * n. D ! i' ! c =
         (if i' < i then (if c < n then A ! i' ! c else if c - n = i' then 1 else 0) else 0))"
  have "\<exists>t. forM [0..<n] (\<lambda>i aug. bnd (?copy i aug) (?unit i)) (replicate n (replicate (2 * n) 0)) = Inr t \<and> ?I n t"
  proof (rule forM_upt_rule[where I = ?I])
    show "?I 0 (replicate n (replicate (2 * n) 0))" by (simp add: mat_replicate)
  next
    fix i D assume i: "0 \<le> i" "i < n" and D: "?I i D"
    then have mD: "mat n (2 * n) D" by simp
    from copy[OF i(2) mD] obtain D1 where D1: "?copy i D = Inr D1" "mat n (2 * n) D1"
      "\<forall>i'<n. \<forall>c<2 * n. D1 ! i' ! c = (if i' = i \<and> c < n then A ! i ! c else D ! i' ! c)"
      by blast
    from unit[OF i(2) D1(2)] obtain D2 where D2: "?unit i D1 = Inr D2" "mat n (2 * n) D2"
      "\<forall>i'<n. \<forall>c<2 * n. D2 ! i' ! c = (if i' = i \<and> n \<le> c then (if c - n = i then 1 else 0) else D1 ! i' ! c)"
      by blast
    have "?I (Suc i) D2" using D D1(3) D2(2,3) i by (auto simp: less_Suc_eq)
    then show "\<exists>t'. bnd (?copy i D) (?unit i) = Inr t' \<and> ?I (Suc i) t'"
      using D1(1) D2(1) by simp
  qed simp
  then show ?thesis by (auto simp: augment_def)
qed

lemma select_pivot_ok:
  assumes aug: "mat n w aug" and i: "i < n" "i < w"
  shows "\<exists>p. select_pivot n i aug = Inr p \<and> i \<le> p \<and> p < n \<and>
           (\<forall>r. i \<le> r \<and> r < n \<longrightarrow> \<bar>aug ! r ! i\<bar> \<le> \<bar>aug ! p ! i\<bar>) \<and>
           (\<forall>r. i \<le> r \<and> r < p \<longrightarrow> \<bar>aug ! r ! i\<bar> < \<bar>aug ! p ! i\<bar>)"
proof -
  let ?f = "\<lambda>r pivot. bnd (rd2 aug r i) (\<lambda>a. bnd (rd2 aug pivot i) (\<lambda>b.
         Inr (if \<bar>a\<bar> > \<bar>b\<bar> then r else pivot)))"
  let ?I = "\<lambda>r p. i \<le> p \<and> p < n \<and>
           (\<forall>r'. i \<le> r' \<and> r' < r \<longrightarrow> \<bar>aug ! r' ! i\<bar> \<le> \<bar>aug ! p ! i\<bar>) \<and>
           (\<forall>r'. i \<le> r' \<and> r' < p \<longrightarrow> \<bar>aug ! r' ! i\<bar> < \<bar>aug ! p ! i\<bar>) \<and> (p < r \<or> p = i)"
  have "\<exists>t. forM [i..<n] ?f i = Inr t \<and> ?I n t"
  proof (rule forM_upt_rule[where I = ?I])
    show "i \<le> n" using i by simp
    show "?I i i" using i by simp
  next
    fix r p assume r: "i \<le> r" "r < n" and p: "?I r p"
    then have pn: "p < n" by simp
    have f: "?f r p = Inr (if \<bar>aug ! r ! i\<bar> > \<bar>aug ! p ! i\<bar> then r else p)"
      using rd2_ok[OF aug r(2) i(2)] rd2_ok[OF aug pn i(2)] by simp
    have "?I (Suc r) (if \<bar>aug ! r ! i\<bar> > \<bar>aug ! p ! i\<bar> then r else p)"
    proof (cases "\<bar>aug ! r ! i\<bar> > \<bar>aug ! p ! i\<bar>")
      case True
      have "\<bar>aug ! r' ! i\<bar> < \<bar>aug ! r ! i\<bar>" if "i \<le> r'" "r' < r" for r'
        using p that True by (smt (verit))
      then show ?thesis using True r by (auto simp: less_Suc_eq order.strict_implies_order)
    next
      case False
      then show ?thesis using p r by (auto simp: less_Suc_eq)
    qed
    then show "\<exists>t'. ?f r p = Inr t' \<and> ?I (Suc r) t'" using f by simp
  qed
  then show ?thesis by (auto simp: select_pivot_def)
qed

lemma swap_rows_ok:
  assumes aug: "mat n w aug" and p: "p < n" and i: "i < n"
  shows "\<exists>S. swap_rows p i aug = Inr S \<and> mat n w S \<and>
          (\<forall>r<n. S ! r = aug ! (if r = i then p else if r = p then i else r))"
proof -
  have len: "length aug = n" using aug by (simp add: mat_def)
  have "swap_rows p i aug = Inr (aug[p := aug ! i, i := aug ! p])"
    using p i len by (simp add: swap_rows_def)
  moreover have "mat n w (aug[p := aug ! i, i := aug ! p])"
    using aug p i by (simp add: mat_upd mat_row)
  moreover have "\<forall>r<n. aug[p := aug ! i, i := aug ! p] ! r = aug ! (if r = i then p else if r = p then i else r)"
    using len p i by (auto simp: nth_list_update)
  ultimately show ?thesis by blast
qed

lemma normalize_row_ok:
  assumes aug: "mat n (2 * n) aug" and i: "i < n"
  shows "\<exists>N. normalize_row n i aug = Inr N \<and> mat n (2 * n) N \<and>
          (\<forall>r<n. \<forall>c<2 * n. N ! r ! c = (if r = i then aug ! i ! c / aug ! i ! i else aug ! r ! c))"
proof -
  let ?d = "aug ! i ! i"
  let ?f = "\<lambda>j aug. bnd (rd2 aug i j) (\<lambda>a. wr2 aug i j (a / ?d))"
  let ?I = "\<lambda>j E. mat n (2 * n) E \<and>
      (\<forall>r<n. \<forall>c<2 * n. E ! r ! c = (if r = i \<and> c < j then aug ! i ! c / ?d else aug ! r ! c))"
  have i2: "i < 2 * n" using i by simp
  have "\<exists>t. forM [0..<2 * n] ?f aug = Inr t \<and> ?I (2 * n) t"
  proof (rule forM_upt_rule[where I = ?I])
    show "?I 0 aug" using aug by simp
  next
    fix j E assume j: "0 \<le> j" "j < 2 * n" and E: "?I j E"
    then have mE: "mat n (2 * n) E" by simp
    have "?I (Suc j) (E[i := (E ! i)[j := E ! i ! j / ?d]])"
      using E i j by (auto simp: mat_upd2 nth_upd2 less_Suc_eq)
    then show "\<exists>t'. ?f j E = Inr t' \<and> ?I (Suc j) t'"
      using wr2_ok[OF mE i j(2)] rd2_ok[OF mE i j(2)] by simp
  qed simp
  then show ?thesis using rd2_ok[OF aug i i2] by (auto simp: normalize_row_def)
qed

lemma eliminate_rows_ok:
  assumes aug: "mat n (2 * n) aug" and i: "i < n"
  shows "\<exists>E. eliminate_rows n i aug = Inr E \<and> mat n (2 * n) E \<and>
          (\<forall>r<n. \<forall>c<2 * n. E ! r ! c =
             (if r = i then aug ! i ! c else aug ! r ! c - aug ! r ! i * aug ! i ! c))"
proof -
  have i2: "i < 2 * n" using i by simp
  let ?row = "\<lambda>r f. forM [0..<2 * n] (\<lambda>j aug.
             bnd (rd2 aug r j) (\<lambda>a. bnd (rd2 aug i j) (\<lambda>b. wr2 aug r j (a - f * b))))"
  have row: "\<exists>D'. ?row r f D = Inr D' \<and> mat n (2 * n) D' \<and>
      (\<forall>r'<n. \<forall>c<2 * n. D' ! r' ! c = (if r' = r then D ! r ! c - f * D ! i ! c else D ! r' ! c))"
    if r: "r < n" "r \<noteq> i" and D: "mat n (2 * n) D" for r f D
  proof -
    let ?I = "\<lambda>j E. mat n (2 * n) E \<and>
      (\<forall>r'<n. \<forall>c<2 * n. E ! r' ! c = (if r' = r \<and> c < j then D ! r ! c - f * D ! i ! c else D ! r' ! c))"
    have "\<exists>t. ?row r f D = Inr t \<and> ?I (2 * n) t"
    proof (rule forM_upt_rule[where I = ?I])
      show "?I 0 D" using D by simp
    next
      fix j E assume j: "0 \<le> j" "j < 2 * n" and E: "?I j E"
      then have mE: "mat n (2 * n) E" by simp
      have Ei: "E ! i ! j = D ! i ! j" and Er: "E ! r ! j = D ! r ! j"
        using E i r j by simp_all
      have "?I (Suc j) (E[r := (E ! r)[j := E ! r ! j - f * E ! i ! j]])"
        using E r j by (auto simp: mat_upd2 nth_upd2 less_Suc_eq Ei Er)
      then show "\<exists>t'. bnd (rd2 E r j) (\<lambda>a. bnd (rd2 E i j) (\<lambda>b. wr2 E r j (a - f * b))) = Inr t' \<and> ?I (Suc j) t'"
        using wr2_ok[OF mE r(1) j(2)] rd2_ok[OF mE r(1) j(2)] rd2_ok[OF mE i j(2)] by simp
    qed simp
    then show ?thesis by auto
  qed
  let ?body = "\<lambda>r aug. if r = i then Inr aug else
       bnd (rd2 aug r i) (\<lambda>factor.
         if factor \<noteq> 0 then ?row r factor aug else Inr aug)"
  let ?I = "\<lambda>r D. mat n (2 * n) D \<and>
      (\<forall>r'<n. \<forall>c<2 * n. D ! r' ! c =
         (if r' < r \<and> r' \<noteq> i then aug ! r' ! c - aug ! r' ! i * aug ! i ! c else aug ! r' ! c))"
  have "\<exists>t. forM [0..<n] ?body aug = Inr t \<and> ?I n t"
  proof (rule forM_upt_rule[where I = ?I])
    show "?I 0 aug" using aug by simp
  next
    fix r D assume r: "0 \<le> r" "r < n" and D: "?I r D"
    then have mD: "mat n (2 * n) D" by simp
    have Dr: "D ! r ! c = aug ! r ! c" if "c < 2 * n" for c using D r that by simp
    have Di: "D ! i ! c = aug ! i ! c" if "c < 2 * n" for c using D i that by simp
    show "\<exists>t'. ?body r D = Inr t' \<and> ?I (Suc r) t'"
    proof (cases "r = i")
      case True
      then show ?thesis using D by (auto simp: less_Suc_eq)
    next
      case ri: False
      show ?thesis
      proof (cases "aug ! r ! i = 0")
        case True
        have "?body r D = Inr D" using ri True rd2_ok[OF mD r(2) i2] Dr[OF i2] by simp
        moreover have "?I (Suc r) D" using D True by (auto simp: less_Suc_eq)
        ultimately show ?thesis by blast
      next
        case False
        from row[OF r(2) ri mD, of "aug ! r ! i"] obtain D' where
          D': "?row r (aug ! r ! i) D = Inr D'" "mat n (2 * n) D'"
          "\<forall>r'<n. \<forall>c<2 * n. D' ! r' ! c = (if r' = r then D ! r ! c - aug ! r ! i * D ! i ! c else D ! r' ! c)"
          by blast
        have "?body r D = Inr D'" using ri False rd2_ok[OF mD r(2) i2] Dr[OF i2] D'(1) by simp
        moreover have "?I (Suc r) D'" using D D'(2,3) r ri by (auto simp: less_Suc_eq Dr Di)
        ultimately show ?thesis by blast
      qed
    qed
  qed simp
  then show ?thesis by (auto simp: eliminate_rows_def)
qed


lemma gj_step_ok:
  assumes aug: "mat n (2 * n) aug" and i: "i < n"
  shows "\<exists>p. select_pivot n i aug = Inr p \<and> i \<le> p \<and> p < n \<and>
           (\<forall>r. i \<le> r \<and> r < n \<longrightarrow> \<bar>aug ! r ! i\<bar> \<le> \<bar>aug ! p ! i\<bar>) \<and>
           (\<forall>r. i \<le> r \<and> r < p \<longrightarrow> \<bar>aug ! r ! i\<bar> < \<bar>aug ! p ! i\<bar>) \<and>
           (if \<bar>aug ! p ! i\<bar> < eps12 then gj_step n i aug = Inl SingularMatrix
            else (\<exists>aug'. gj_step n i aug = Inr aug' \<and> mat n (2 * n) aug' \<and>
              (\<forall>r<n. \<forall>c<2 * n. aug' ! r ! c =
                 (if r = i then aug ! p ! c / aug ! p ! i
                  else aug ! (if r = p then i else r) ! c
                       - aug ! (if r = p then i else r) ! i * (aug ! p ! c / aug ! p ! i)))))"
proof -
  have i2: "i < 2 * n" using i by simp
  from select_pivot_ok[OF aug i i2] obtain p where p: "select_pivot n i aug = Inr p" "i \<le> p" "p < n"
    "\<forall>r. i \<le> r \<and> r < n \<longrightarrow> \<bar>aug ! r ! i\<bar> \<le> \<bar>aug ! p ! i\<bar>"
    "\<forall>r. i \<le> r \<and> r < p \<longrightarrow> \<bar>aug ! r ! i\<bar> < \<bar>aug ! p ! i\<bar>" by blast
  have rdp: "rd2 aug p i = Inr (aug ! p ! i)" by (rule rd2_ok[OF aug p(3) i2])
  show ?thesis
  proof (cases "\<bar>aug ! p ! i\<bar> < eps12")
    case True
    then have "gj_step n i aug = Inl SingularMatrix"
      by (simp add: gj_step_def p(1) rdp)
    then show ?thesis using p True by auto
  next
    case False
    have "\<exists>S. (if p \<noteq> i then swap_rows p i aug else Inr aug) = Inr S \<and> mat n (2 * n) S \<and>
          (\<forall>r<n. S ! r = aug ! (if r = i then p else if r = p then i else r))"
      using swap_rows_ok[OF aug p(3) i] aug by (cases "p = i") auto
    then obtain S where S: "(if p \<noteq> i then swap_rows p i aug else Inr aug) = Inr S" "mat n (2 * n) S"
      "\<forall>r<n. S ! r = aug ! (if r = i then p else if r = p then i else r)" by blast
    from normalize_row_ok[OF S(2) i] obtain N where N: "normalize_row n i S = Inr N" "mat n (2 * n) N"
      "\<forall>r<n. \<forall>c<2 * n. N ! r ! c = (if r = i then S ! i ! c / S ! i ! i else S ! r ! c)" by blast
    from eliminate_rows_ok[OF N(2) i] obtain E where E: "eliminate_rows n i N = Inr E" "mat n (2 * n) E"
      "\<forall>r<n. \<forall>c<2 * n. E ! r ! c = (if r = i then N ! i ! c else N ! r ! c - N ! r ! i * N ! i ! c)" by blast
    have step: "gj_step n i aug = Inr E"
      using False S(1) by (simp add: gj_step_def p(1) rdp N(1) E(1))
    have ent: "E ! r ! c = (if r = i then aug ! p ! c / aug ! p ! i
                  else aug ! (if r = p then i else r) ! c
                       - aug ! (if r = p then i else r) ! i * (aug ! p ! c / aug ! p ! i))"
      if r: "r < n" and c: "c < 2 * n" for r c
    proof (cases "r = i")
      case True
      then show ?thesis using E(3) N(3) S(3) r c i by simp
    next
      case ri: False
      have "E ! r ! c = N ! r ! c - N ! r ! i * N ! i ! c" using E(3) r c ri by simp
      also have "\<dots> = S ! r ! c - S ! r ! i * (S ! i ! c / S ! i ! i)"
        using N(3) r c i i2 ri by simp
      also have "\<dots> = aug ! (if r = p then i else r) ! c
                       - aug ! (if r = p then i else r) ! i * (aug ! p ! c / aug ! p ! i)"
        using S(3) r i ri by simp
      finally show ?thesis using ri by simp
    qed
    show ?thesis using p False step E(2) ent by auto
  qed
qed

lemma spans_refl: "spans n w X X"
  unfolding spans_def
proof (intro allI impI)
  fix r assume r: "r < n"
  have "\<forall>c<w. X ! r ! c = (\<Sum>k<n. (if k = r then 1 else 0) * X ! k ! c)"
    using r by (simp add: if_distrib[of "\<lambda>x. x * _"] sum.delta' cong: if_cong)
  then show "\<exists>e. \<forall>c<w. X ! r ! c = (\<Sum>k<n. e k * X ! k ! c)"
    by (intro exI[where x = "\<lambda>k. if k = r then 1 else 0"]) simp
qed

lemma spans_trans:
  assumes XY: "spans n w X Y" and YZ: "spans n w Y Z"
  shows "spans n w X Z"
  unfolding spans_def
proof (intro allI impI)
  fix r assume r: "r < n"
  from XY r obtain e where e: "\<forall>c<w. X ! r ! c = (\<Sum>k<n. e k * Y ! k ! c)"
    unfolding spans_def by blast
  from YZ have "\<forall>k. \<exists>f. k < n \<longrightarrow> (\<forall>c<w. Y ! k ! c = (\<Sum>l<n. f l * Z ! l ! c))"
    unfolding spans_def by blast
  then obtain F where F: "\<And>k c. k < n \<Longrightarrow> c < w \<Longrightarrow> Y ! k ! c = (\<Sum>l<n. F k l * Z ! l ! c)"
    by metis
  have "X ! r ! c = (\<Sum>l<n. (\<Sum>k<n. e k * F k l) * Z ! l ! c)" if c: "c < w" for c
  proof -
    have "X ! r ! c = (\<Sum>k<n. e k * (\<Sum>l<n. F k l * Z ! l ! c))"
      using e c F by simp
    also have "\<dots> = (\<Sum>k<n. \<Sum>l<n. e k * F k l * Z ! l ! c)"
      by (simp add: sum_distrib_left mult.assoc)
    also have "\<dots> = (\<Sum>l<n. \<Sum>k<n. e k * F k l * Z ! l ! c)"
      by (rule sum.swap)
    also have "\<dots> = (\<Sum>l<n. (\<Sum>k<n. e k * F k l) * Z ! l ! c)"
      by (simp add: sum_distrib_right)
    finally show ?thesis .
  qed
  then show "\<exists>e. \<forall>c<w. X ! r ! c = (\<Sum>k<n. e k * Z ! k ! c)"
    by (intro exI[where x = "\<lambda>l. \<Sum>k<n. e k * F k l"]) simp
qed

section \<open>GaussJordanInverter: invariants and the inverse\<close>

lemma eps12_pos: "0 < eps12"
  by (simp add: eps12_def)

lemma step_left_ok:
  assumes ent: "\<forall>r<n. \<forall>c<2 * n. aug' ! r ! c =
                 (if r = i then aug ! p ! c / d
                  else aug ! (if r = p then i else r) ! c
                       - aug ! (if r = p then i else r) ! i * (aug ! p ! c / d))"
    and i: "i < n" and p: "p < n"
    and L: "left_ok n A aug"
  shows "left_ok n A aug'"
  unfolding left_ok_def
proof (intro allI impI)
  fix r c assume r: "r < n" and c: "c < n"
  have Lp: "aug ! p ! c = (\<Sum>k<n. aug ! p ! (n + k) * A ! k ! c)"
    using L p c by (simp add: left_ok_def)
  show "aug' ! r ! c = (\<Sum>k<n. aug' ! r ! (n + k) * A ! k ! c)"
  proof (cases "r = i")
    case True
    have "(\<Sum>k<n. aug' ! r ! (n + k) * A ! k ! c) = (\<Sum>k<n. (aug ! p ! (n + k) * A ! k ! c) / d)"
      by (rule sum.cong) (use ent r True in simp_all)
    also have "\<dots> = (\<Sum>k<n. aug ! p ! (n + k) * A ! k ! c) / d"
      by (simp add: sum_divide_distrib)
    also have "\<dots> = aug' ! r ! c" using ent r c True Lp by simp
    finally show ?thesis by simp
  next
    case False
    define s where "s = (if r = p then i else r)"
    have s: "s < n" using r i by (simp add: s_def)
    have Ls: "aug ! s ! c = (\<Sum>k<n. aug ! s ! (n + k) * A ! k ! c)"
      using L s c by (simp add: left_ok_def)
    have "(\<Sum>k<n. aug' ! r ! (n + k) * A ! k ! c)
        = (\<Sum>k<n. aug ! s ! (n + k) * A ! k ! c - (aug ! s ! i / d) * (aug ! p ! (n + k) * A ! k ! c))"
      by (rule sum.cong) (use ent r False in \<open>simp_all add: s_def algebra_simps\<close>)
    also have "\<dots> = (\<Sum>k<n. aug ! s ! (n + k) * A ! k ! c)
                    - (aug ! s ! i / d) * (\<Sum>k<n. aug ! p ! (n + k) * A ! k ! c)"
      by (simp add: sum_subtractf sum_distrib_left)
    also have "\<dots> = aug ! s ! c - aug ! s ! i * (aug ! p ! c / d)"
      using Ls Lp by simp
    also have "\<dots> = aug' ! r ! c" using ent r c False by (simp add: s_def)
    finally show ?thesis by simp
  qed
qed

lemma step_unit_cols:
  assumes ent: "\<forall>r<n. \<forall>c<2 * n. aug' ! r ! c =
                 (if r = i then aug ! p ! c / d
                  else aug ! (if r = p then i else r) ! c
                       - aug ! (if r = p then i else r) ! i * (aug ! p ! c / d))"
    and i: "i < n" and p: "p < n" "i \<le> p" and d: "d = aug ! p ! i" "d \<noteq> 0"
    and U: "unit_cols n i aug"
  shows "unit_cols n (Suc i) aug'"
  unfolding unit_cols_def
proof (intro allI impI)
  fix r c assume r: "r < n" and c: "c < Suc i"
  then have c2: "c < 2 * n" using i by simp
  have Uz: "aug ! r' ! c' = (if r' = c' then 1 else 0)" if "r' < n" "c' < i" for r' c'
    using U that by (simp add: unit_cols_def)
  show "aug' ! r ! c = (if r = c then 1 else 0)"
  proof (cases "c = i")
    case True
    then show ?thesis using ent r c2 d by (simp add: field_simps)
  next
    case False
    then have ci: "c < i" using c by simp
    have pc: "aug ! p ! c = 0" using Uz[OF p(1) ci] p(2) ci by simp
    show ?thesis
    proof (cases "r = i")
      case True
      then show ?thesis using ent r c2 pc ci by simp
    next
      case ri: False
      define s where "s = (if r = p then i else r)"
      have s: "s < n" using r i by (simp add: s_def)
      have "aug' ! r ! c = aug ! s ! c" using ent r c2 ri pc by (simp add: s_def)
      also have "\<dots> = (if s = c then 1 else 0)" by (rule Uz[OF s ci])
      also have "\<dots> = (if r = c then 1 else 0)"
        using ci p(2) by (auto simp: s_def)
      finally show ?thesis .
    qed
  qed
qed

lemma step_spans:
  assumes ent: "\<forall>r<n. \<forall>c<2 * n. aug' ! r ! c =
                 (if r = i then aug ! p ! c / d
                  else aug ! (if r = p then i else r) ! c
                       - aug ! (if r = p then i else r) ! i * (aug ! p ! c / d))"
    and i: "i < n" and p: "p < n" and d: "d \<noteq> 0"
  shows "spans n (2 * n) aug aug'"
  unfolding spans_def
proof (intro allI impI)
  fix k assume k: "k < n"
  have rowi: "aug' ! i ! c = aug ! p ! c / d" if "c < 2 * n" for c
    using ent i that by simp
  show "\<exists>e. \<forall>c<2 * n. aug ! k ! c = (\<Sum>l<n. e l * aug' ! l ! c)"
  proof (cases "k = p")
    case True
    have "aug ! k ! c = (\<Sum>l<n. (if l = i then d else 0) * aug' ! l ! c)" if c: "c < 2 * n" for c
    proof -
      have "(\<Sum>l<n. (if l = i then d else 0) * aug' ! l ! c) = (\<Sum>l<n. if l = i then d * aug' ! i ! c else 0)"
        by (rule sum.cong) simp_all
      also have "\<dots> = d * aug' ! i ! c" using i by (simp add: sum.delta)
      finally show ?thesis using rowi[OF c] d True by simp
    qed
    then show ?thesis by (intro exI[where x = "\<lambda>l. if l = i then d else 0"]) simp
  next
    case False
    define r where "r = (if k = i then p else k)"
    have r: "r < n" "r \<noteq> i" "(if r = p then i else r) = k"
      using k p False by (auto simp: r_def)
    have rowr: "aug' ! r ! c = aug ! k ! c - aug ! k ! i * aug' ! i ! c" if "c < 2 * n" for c
      using ent r that rowi[OF that] by simp
    have "aug ! k ! c = (\<Sum>l<n. ((if l = r then 1 else 0) + (if l = i then aug ! k ! i else 0)) * aug' ! l ! c)"
      if c: "c < 2 * n" for c
    proof -
      have "(\<Sum>l<n. ((if l = r then 1 else 0) + (if l = i then aug ! k ! i else 0)) * aug' ! l ! c)
          = (\<Sum>l<n. (if l = r then aug' ! r ! c else 0) + (if l = i then aug ! k ! i * aug' ! i ! c else 0))"
        by (rule sum.cong) (simp_all add: distrib_right)
      also have "\<dots> = aug' ! r ! c + aug ! k ! i * aug' ! i ! c"
        using r(1) i by (simp add: sum.distrib sum.delta)
      finally show ?thesis using rowr[OF c] by simp
    qed
    then show ?thesis
      by (intro exI[where x = "\<lambda>l. (if l = r then 1 else 0) + (if l = i then aug ! k ! i else 0)"]) simp
  qed
qed

lemma gj_step_inv:
  assumes I: "gj_inv n A aug0 i aug" and i: "i < n" and step: "gj_step n i aug = Inr aug'"
  shows "gj_inv n A aug0 (Suc i) aug'"
proof -
  from I have aug: "mat n (2 * n) aug" by (simp add: gj_inv_def)
  from gj_step_ok[OF aug i] obtain p where p: "i \<le> p" "p < n"
    and c: "if \<bar>aug ! p ! i\<bar> < eps12 then gj_step n i aug = Inl SingularMatrix
            else (\<exists>aug'. gj_step n i aug = Inr aug' \<and> mat n (2 * n) aug' \<and>
              (\<forall>r<n. \<forall>c<2 * n. aug' ! r ! c =
                 (if r = i then aug ! p ! c / aug ! p ! i
                  else aug ! (if r = p then i else r) ! c
                       - aug ! (if r = p then i else r) ! i * (aug ! p ! c / aug ! p ! i))))"
    by blast
  from c step have big: "\<not> \<bar>aug ! p ! i\<bar> < eps12" by (auto split: if_splits)
  then have d: "aug ! p ! i \<noteq> 0" using eps12_pos by auto
  from c step big have m': "mat n (2 * n) aug'" and
    ent: "\<forall>r<n. \<forall>c<2 * n. aug' ! r ! c =
                 (if r = i then aug ! p ! c / aug ! p ! i
                  else aug ! (if r = p then i else r) ! c
                       - aug ! (if r = p then i else r) ! i * (aug ! p ! c / aug ! p ! i))"
    by auto
  have "left_ok n A aug'"
    by (rule step_left_ok[OF ent i p(2)]) (use I in \<open>simp add: gj_inv_def\<close>)
  moreover have "unit_cols n (Suc i) aug'"
    by (rule step_unit_cols[OF ent i p(2,1) refl d]) (use I in \<open>simp add: gj_inv_def\<close>)
  moreover have "spans n (2 * n) aug0 aug'"
    by (rule spans_trans[OF _ step_spans[OF ent i p(2) d]]) (use I in \<open>simp add: gj_inv_def\<close>)
  ultimately show ?thesis using m' by (simp add: gj_inv_def)
qed


lemma augment_inv:
  assumes A: "mat n n A" and a: "augment n A = Inr aug0"
  shows "gj_inv n A aug0 0 aug0"
proof -
  from augment_ok[OF A] a have m: "mat n (2 * n) aug0" and
    ent: "\<forall>i<n. \<forall>c<2 * n. aug0 ! i ! c = (if c < n then A ! i ! c else if c - n = i then 1 else 0)"
    by auto
  have "left_ok n A aug0"
    unfolding left_ok_def
  proof (intro allI impI)
    fix r c assume r: "r < n" and c: "c < n"
    have "(\<Sum>k<n. aug0 ! r ! (n + k) * A ! k ! c) = (\<Sum>k<n. if k = r then A ! r ! c else 0)"
      by (rule sum.cong) (use ent r in auto)
    also have "\<dots> = A ! r ! c" using r by (simp add: sum.delta)
    finally show "aug0 ! r ! c = (\<Sum>k<n. aug0 ! r ! (n + k) * A ! k ! c)"
      using ent r c by simp
  qed
  then show ?thesis using m by (simp add: gj_inv_def unit_cols_def spans_refl)
qed

lemma gj_loop_inv:
  assumes I: "gj_inv n A aug0 0 aug0" and l: "forM [0..<i] (gj_step n) aug0 = Inr aug" and i: "i \<le> n"
  shows "gj_inv n A aug0 i aug"
proof (rule forM_upt_partial[where I = "gj_inv n A aug0", OF l])
  show "gj_inv n A aug0 0 aug0" by fact
next
  fix j u u' assume "0 \<le> j" "j < i" "gj_inv n A aug0 j u" "gj_step n j u = Inr u'"
  then show "gj_inv n A aug0 (Suc j) u'" using gj_step_inv i by simp
qed simp

lemma gj_step_error:
  assumes aug: "mat n (2 * n) aug" and i: "i < n" and e: "gj_step n i aug = Inl e"
  shows "e = SingularMatrix"
  using gj_step_ok[OF aug i] e by (auto split: if_splits)

lemma gj_loop_error:
  assumes I: "gj_inv n A aug0 0 aug0" and l: "forM [0..<n] (gj_step n) aug0 = Inl e"
  shows "e = SingularMatrix"
proof -
  from l obtain i t where i: "i < n" and t: "forM [0..<i] (gj_step n) aug0 = Inr t"
    and s: "gj_step n i t = Inl e"
    using forM_upt_Inl_iff[of 0 n "gj_step n" aug0 e] by auto
  from gj_loop_inv[OF I t] i have "mat n (2 * n) t" by (simp add: gj_inv_def)
  then show ?thesis using gj_step_error i s by blast
qed

lemma extract_inverse_ok:
  assumes aug: "mat n (2 * n) aug"
  shows "\<exists>inv. extract_inverse n aug = Inr inv \<and> mat n n inv \<and>
           (\<forall>i<n. \<forall>j<n. inv ! i ! j = aug ! i ! (n + j))"
proof -
  let ?body = "\<lambda>i j inv. bnd (rd2 aug i (n + j)) (\<lambda>a. wr2 inv i j a)"
  have inner: "\<exists>D'. forM [0..<n] (?body i) D = Inr D' \<and> mat n n D' \<and>
      (\<forall>i'<n. \<forall>j'<n. D' ! i' ! j' = (if i' = i then aug ! i ! (n + j') else D ! i' ! j'))"
    if i: "i < n" and D: "mat n n D" for i D
  proof -
    let ?I = "\<lambda>j E. mat n n E \<and>
      (\<forall>i'<n. \<forall>j'<n. E ! i' ! j' = (if i' = i \<and> j' < j then aug ! i ! (n + j') else D ! i' ! j'))"
    have "\<exists>t. forM [0..<n] (?body i) D = Inr t \<and> ?I n t"
    proof (rule forM_upt_rule[where I = ?I])
      show "?I 0 D" using D by simp
    next
      fix j E assume j: "0 \<le> j" "j < n" and E: "?I j E"
      then have mE: "mat n n E" and j2: "n + j < 2 * n" by simp_all
      have "?I (Suc j) (E[i := (E ! i)[j := aug ! i ! (n + j)]])"
        using E i j by (auto simp: mat_upd2 nth_upd2 less_Suc_eq)
      then show "\<exists>t'. ?body i j E = Inr t' \<and> ?I (Suc j) t'"
        using wr2_ok[OF mE i j(2)] rd2_ok[OF aug i j2] by simp
    qed simp
    then show ?thesis by auto
  qed
  let ?I = "\<lambda>i D. mat n n D \<and> (\<forall>i'<n. \<forall>j'<n. D ! i' ! j' = (if i' < i then aug ! i' ! (n + j') else 0))"
  have "\<exists>t. forM [0..<n] (\<lambda>i. forM [0..<n] (?body i)) (replicate n (replicate n 0)) = Inr t \<and> ?I n t"
  proof (rule forM_upt_rule[where I = ?I])
    show "?I 0 (replicate n (replicate n 0))" by (simp add: mat_replicate)
  next
    fix i D assume i: "0 \<le> i" "i < n" and D: "?I i D"
    from inner[OF i(2)] D obtain D' where D': "forM [0..<n] (?body i) D = Inr D'" "mat n n D'"
      "\<forall>i'<n. \<forall>j'<n. D' ! i' ! j' = (if i' = i then aug ! i ! (n + j') else D ! i' ! j')"
      by blast
    have "?I (Suc i) D'" using D D'(2,3) i by (auto simp: less_Suc_eq)
    then show "\<exists>t'. forM [0..<n] (?body i) D = Inr t' \<and> ?I (Suc i) t'" using D'(1) by blast
  qed simp
  then show ?thesis by (auto simp: extract_inverse_def)
qed

lemma inverse_unfold:
  assumes A: "mat n n A" and n: "0 < n"
  shows "inverse_m A = bnd (augment n A) (\<lambda>aug.
      bnd (forM [0..<n] (gj_step n) aug) (extract_inverse n))"
proof -
  have "length A = n" "A \<noteq> []" "length (A ! 0) = n" using A n by (auto simp: mat_def)
  then show ?thesis by (simp add: inverse_m_def Let_def)
qed

lemma inverse_ok:
  assumes A: "mat n n A" and n: "0 < n"
  shows "inverse_m A = Inl SingularMatrix \<or>
         (\<exists>B. inverse_m A = Inr B \<and> mat n n B \<and>
            (\<forall>i<n. \<forall>j<n. (\<Sum>k<n. B ! i ! k * A ! k ! j) = (if i = j then 1 else 0)) \<and>
            (\<forall>i<n. \<forall>j<n. (\<Sum>k<n. A ! i ! k * B ! k ! j) = (if i = j then 1 else 0)))"
proof -
  from augment_ok[OF A] obtain aug0 where a0: "augment n A = Inr aug0"
    and ent0: "\<forall>i<n. \<forall>c<2 * n. aug0 ! i ! c = (if c < n then A ! i ! c else if c - n = i then 1 else 0)"
    by blast
  note I0 = augment_inv[OF A a0]
  show ?thesis
  proof (cases "forM [0..<n] (gj_step n) aug0")
    case (Inl e)
    then have "e = SingularMatrix" using gj_loop_error[OF I0] by blast
    then show ?thesis using Inl a0 by (simp add: inverse_unfold[OF A n])
  next
    case (Inr aug)
    from gj_loop_inv[OF I0 Inr] have m: "mat n (2 * n) aug" and L: "left_ok n A aug"
      and U: "unit_cols n n aug" and S: "spans n (2 * n) aug0 aug"
      by (simp_all add: gj_inv_def)
    from extract_inverse_ok[OF m] obtain B where B: "extract_inverse n aug = Inr B" "mat n n B"
      "\<forall>i<n. \<forall>j<n. B ! i ! j = aug ! i ! (n + j)" by blast
    have inv: "inverse_m A = Inr B" using a0 Inr B(1) by (simp add: inverse_unfold[OF A n])
    have unit: "aug ! r ! c = (if r = c then 1 else 0)" if "r < n" "c < n" for r c
      using U that by (simp add: unit_cols_def)
    have left: "(\<Sum>k<n. B ! i ! k * A ! k ! j) = (if i = j then 1 else 0)" if i: "i < n" and j: "j < n" for i j
    proof -
      have "(\<Sum>k<n. B ! i ! k * A ! k ! j) = (\<Sum>k<n. aug ! i ! (n + k) * A ! k ! j)"
        by (rule sum.cong) (use B(3) i in simp_all)
      also have "\<dots> = aug ! i ! j" using L i j by (simp add: left_ok_def)
      finally show ?thesis using unit[OF i j] by simp
    qed
    have right: "(\<Sum>k<n. A ! i ! k * B ! k ! j) = (if i = j then 1 else 0)" if i: "i < n" and j: "j < n" for i j
    proof -
      from S i obtain e where e: "\<forall>c<2 * n. aug0 ! i ! c = (\<Sum>k<n. e k * aug ! k ! c)"
        unfolding spans_def by blast
      have ek: "e c = A ! i ! c" if c: "c < n" for c
      proof -
        have "c < 2 * n" using c by simp
        then have "A ! i ! c = (\<Sum>k<n. e k * aug ! k ! c)"
          using e[rule_format, of c] ent0[rule_format, OF i, of c] c by simp
        also have "\<dots> = (\<Sum>k<n. if k = c then e c else 0)"
          by (rule sum.cong) (use unit c in auto)
        also have "\<dots> = e c" using c by (simp add: sum.delta)
        finally show ?thesis by simp
      qed
      have "(\<Sum>k<n. A ! i ! k * B ! k ! j) = (\<Sum>k<n. e k * aug ! k ! (n + j))"
        by (rule sum.cong) (use ek B(3) j in simp_all)
      also have "\<dots> = aug0 ! i ! (n + j)" using e[rule_format, of "n + j"] j by simp
      also have "\<dots> = (if i = j then 1 else 0)"
        using ent0[rule_format, OF i, of "n + j"] j by auto
      finally show ?thesis .
    qed
    show ?thesis using inv B(2) left right by blast
  qed
qed

lemma inverse_singular_iff:
  assumes A: "mat n n A" and n: "0 < n"
  shows "inverse_m A = Inl SingularMatrix \<longleftrightarrow>
         (\<exists>i<n. \<exists>aug p. elimination_state n A i = Inr aug \<and> select_pivot n i aug = Inr p \<and>
                          \<bar>aug ! p ! i\<bar> < eps12)"
proof -
  from augment_ok[OF A] obtain aug0 where a0: "augment n A = Inr aug0" by blast
  note I0 = augment_inv[OF A a0]
  have es: "elimination_state n A i = forM [0..<i] (gj_step n) aug0" for i
    by (simp add: elimination_state_def a0)
  have inv: "inverse_m A = bnd (forM [0..<n] (gj_step n) aug0) (extract_inverse n)"
    by (simp add: inverse_unfold[OF A n] a0)
  have shaped: "mat n (2 * n) aug" if "forM [0..<i] (gj_step n) aug0 = Inr aug" "i \<le> n" for i aug
    using gj_loop_inv[OF I0 that] by (simp add: gj_inv_def)
  show ?thesis
  proof
    assume s: "inverse_m A = Inl SingularMatrix"
    have "forM [0..<n] (gj_step n) aug0 = Inl SingularMatrix"
    proof (cases "forM [0..<n] (gj_step n) aug0")
      case (Inl e)
      then show ?thesis using s inv by simp
    next
      case (Inr aug)
      from extract_inverse_ok[OF shaped[OF Inr]] s inv Inr show ?thesis by auto
    qed
    then obtain i t where i: "i < n" and t: "forM [0..<i] (gj_step n) aug0 = Inr t"
      and f: "gj_step n i t = Inl SingularMatrix"
      using forM_upt_Inl_iff[of 0 n "gj_step n" aug0 SingularMatrix] by auto
    have mt: "mat n (2 * n) t" using shaped[OF t] i by simp
    from gj_step_ok[OF mt i] f obtain p where "select_pivot n i t = Inr p" "\<bar>t ! p ! i\<bar> < eps12"
      by (auto split: if_splits)
    then show "\<exists>i<n. \<exists>aug p. elimination_state n A i = Inr aug \<and> select_pivot n i aug = Inr p \<and>
                          \<bar>aug ! p ! i\<bar> < eps12"
      using i t es by auto
  next
    assume "\<exists>i<n. \<exists>aug p. elimination_state n A i = Inr aug \<and> select_pivot n i aug = Inr p \<and>
                          \<bar>aug ! p ! i\<bar> < eps12"
    then obtain i aug p where i: "i < n" and t: "forM [0..<i] (gj_step n) aug0 = Inr aug"
      and p: "select_pivot n i aug = Inr p" "\<bar>aug ! p ! i\<bar> < eps12"
      using es by auto
    have mt: "mat n (2 * n) aug" using shaped[OF t] i by simp
    from gj_step_ok[OF mt i] p have "gj_step n i aug = Inl SingularMatrix"
      by (auto split: if_splits)
    then have "forM [0..<n] (gj_step n) aug0 = Inl SingularMatrix"
      using forM_upt_Inl_iff[of 0 n "gj_step n" aug0 SingularMatrix] i t by auto
    then show "inverse_m A = Inl SingularMatrix" using inv by simp
  qed
qed

text \<open>
  Claim C2: \<^verbatim>\<open>inverse(A)\<close> fails with NonSquareMatrix on every matrix whose numbers
  of rows and columns differ. On an n-by-n matrix, \<open>n \<ge> 1\<close>, it fails with
  SingularMatrix exactly when at some iteration \<open>i\<close> of the elimination, reached without
  failure, the selected pivot has magnitude below \<open>1e-12\<close>; the selected pivot is an
  entry of column \<open>i\<close> among rows \<open>i..n-1\<close> whose magnitude is the largest there; and
  no other failure occurs. The matrix with rows (1, 2), (2, 4) fails with SingularMatrix.
\<close>

theorem inverse_failures:
  "(mat m k A \<and> m \<noteq> k \<longrightarrow> inverse_m A = Inl NonSquareMatrix)
   \<and> (mat n n S \<and> 0 < n \<longrightarrow>
        (inverse_m S = Inl SingularMatrix \<longleftrightarrow>
           (\<exists>i<n. \<exists>aug p. elimination_state n S i = Inr aug \<and> select_pivot n i aug = Inr p \<and>
                            \<bar>aug ! p ! i\<bar> < eps12))
        \<and> (\<forall>i<n. \<forall>aug. elimination_state n S i = Inr aug \<longrightarrow>
             (\<exists>p. select_pivot n i aug = Inr p \<and> i \<le> p \<and> p < n \<and>
                  (\<forall>r. i \<le> r \<and> r < n \<longrightarrow> \<bar>aug ! r ! i\<bar> \<le> \<bar>aug ! p ! i\<bar>)))
        \<and> (inverse_m S = Inl SingularMatrix \<or> (\<exists>B. inverse_m S = Inr B)))
   \<and> inverse_m [[1, 2], [2, 4]] = Inl SingularMatrix"
proof (intro conjI impI)
  assume "mat m k A \<and> m \<noteq> k"
  then have "A = [] \<or> length (A ! 0) \<noteq> length A"
    by (cases A) (auto simp: mat_def)
  then show "inverse_m A = Inl NonSquareMatrix"
    by (auto simp: inverse_m_def Let_def)
next
  assume S: "mat n n S \<and> 0 < n"
  then show "inverse_m S = Inl SingularMatrix \<longleftrightarrow>
           (\<exists>i<n. \<exists>aug p. elimination_state n S i = Inr aug \<and> select_pivot n i aug = Inr p \<and>
                            \<bar>aug ! p ! i\<bar> < eps12)"
    using inverse_singular_iff by blast
  show "inverse_m S = Inl SingularMatrix \<or> (\<exists>B. inverse_m S = Inr B)"
    using inverse_ok[of n S] S by blast
  show "\<forall>i<n. \<forall>aug. elimination_state n S i = Inr aug \<longrightarrow>
             (\<exists>p. select_pivot n i aug = Inr p \<and> i \<le> p \<and> p < n \<and>
                  (\<forall>r. i \<le> r \<and> r < n \<longrightarrow> \<bar>aug ! r ! i\<bar> \<le> \<bar>aug ! p ! i\<bar>))"
  proof (intro allI impI)
    fix i aug assume i: "i < n" and e: "elimination_state n S i = Inr aug"
    from augment_ok[of n S] S obtain aug0 where a0: "augment n S = Inr aug0" by blast
    from e have "forM [0..<i] (gj_step n) aug0 = Inr aug"
      by (simp add: elimination_state_def a0)
    from gj_loop_inv[OF augment_inv[OF _ a0] this] S i have m: "mat n (2 * n) aug"
      by (simp add: gj_inv_def)
    have "i < 2 * n" using i by simp
    from select_pivot_ok[OF m i this]
    show "\<exists>p. select_pivot n i aug = Inr p \<and> i \<le> p \<and> p < n \<and>
                  (\<forall>r. i \<le> r \<and> r < n \<longrightarrow> \<bar>aug ! r ! i\<bar> \<le> \<bar>aug ! p ! i\<bar>)"
      by blast
  qed
next
  show "inverse_m [[1, 2], [2, 4]] = Inl SingularMatrix"
    by (simp add: gj_defs eval_simps)
qed

theorem inverse_failures_witness:
  "mat 1 2 [[1, 2]] \<and> (1::nat) \<noteq> 2 \<and> inverse_m [[1, 2]] = Inl NonSquareMatrix
   \<and> mat 2 2 [[1, 2], [2, 4]] \<and> (0::nat) < 2
   \<and> (\<exists>i<2. \<exists>aug p. elimination_state 2 [[1, 2], [2, 4]] i = Inr aug
          \<and> select_pivot 2 i aug = Inr p \<and> \<bar>aug ! p ! i\<bar> < eps12)"
proof -
  have A: "mat 1 2 [[1, 2]]" and S: "mat 2 2 [[1, 2], [2, 4]]"
    by (simp_all add: mat_def)
  note t = inverse_failures[of 1 2 "[[1, 2]]" 2 "[[1, 2], [2, 4]]"]
  from t A have 1: "inverse_m [[1, 2]] = Inl NonSquareMatrix" by simp
  from t have 2: "inverse_m [[1, 2], [2, 4]] = Inl SingularMatrix" by blast
  have pre: "mat 2 2 [[1, 2], [2, 4]] \<and> (0::nat) < 2" using S by simp
  from t[THEN conjunct2, THEN conjunct1, rule_format, OF pre, THEN conjunct1] 2
  have 3: "\<exists>i<2. \<exists>aug p. elimination_state 2 [[1, 2], [2, 4]] i = Inr aug
          \<and> select_pivot 2 i aug = Inr p \<and> \<bar>aug ! p ! i\<bar> < eps12"
    by simp
  show ?thesis using A S 1 3 by simp
qed

text \<open>
  Claim C3 as the claim states it (whenever \<^verbatim>\<open>inverse(A)\<close> succeeds,
  \<^verbatim>\<open>matmul(inverse(A), A)\<close> is within \<open>1e-6\<close> of the identity), refuted in doubles at
  the matrix with rows (514229, 317811), (317811, 196418), of determinant 1:
  \<^verbatim>\<open>inverse\<close> returns, so every pivot passed the \<open>1e-12\<close> test, and the product with
  the input has \<open>-2^(-15)\<close>, about \<open>-3.05e-5\<close>, in row 1, column 0.
\<close>

theorem inverse_product_off_in_doubles:
  "inverse_rnd fl [[514229, 317811], [317811, 196418]]
     = Inr [[6748868153532331 / 2 ^ 35, - 5459949028964411 / 2 ^ 34],
            [- 1364987257241103 / 2 ^ 32, 552148944108161 / 2 ^ 30]]
   \<and> matmul_rnd fl [[6748868153532331 / 2 ^ 35, - 5459949028964411 / 2 ^ 34],
                    [- 1364987257241103 / 2 ^ 32, 552148944108161 / 2 ^ 30]]
                   [[514229, 317811], [317811, 196418]]
     = Inr [[65537 / 2 ^ 16, 1 / 2 ^ 17], [- 1 / 2 ^ 15, 32767 / 2 ^ 15]]
   \<and> 1 / 10 ^ 6 < \<bar>[[65537 / 2 ^ 16, 1 / 2 ^ 17], [- 1 / 2 ^ 15, 32767 / 2 ^ 15 :: real]] ! 1 ! 0 - 0\<bar>"
  using inverse_dbl_fib product_dbl_fib by simp

text \<open>
  Claim C3, amended: in exact real arithmetic, on an n-by-n matrix \<open>A\<close> with \<open>n \<ge> 1\<close>,
  \<^verbatim>\<open>inverse(A)\<close> returns exactly when every selected pivot has magnitude at least
  \<open>1e-12\<close>, and then the result \<open>B\<close> is n-by-n and \<^verbatim>\<open>matmul(B, A)\<close> is exactly the
  identity. (In doubles the product is near the identity only as far as the
  conditioning of \<open>A\<close> allows, and no bound such as \<open>1e-6\<close> holds for every \<open>A\<close>.)
  For the matrix with rows (4, 7), (2, 6) the exact inverse has rows (0.6, -0.7),
  (-0.2, 0.4), and the inverse computed in doubles is within \<open>1e-6\<close> of it.
\<close>

theorem inverse_times_matrix:
  assumes "mat n n A" and "0 < n"
  shows "((\<exists>B. inverse_m A = Inr B) \<longleftrightarrow>
            (\<forall>i<n. \<forall>aug p. elimination_state n A i = Inr aug \<and> select_pivot n i aug = Inr p
                   \<longrightarrow> eps12 \<le> \<bar>aug ! p ! i\<bar>))
       \<and> (\<forall>B. inverse_m A = Inr B \<longrightarrow>
            mat n n B \<and> (\<exists>P. matmul B A = Inr P \<and> mat n n P
                              \<and> (\<forall>i<n. \<forall>j<n. P ! i ! j = (if i = j then 1 else 0))))
       \<and> inverse_m [[4, 7], [2, 6]] = Inr [[6 / 10, - 7 / 10], [- 2 / 10, 4 / 10]]
       \<and> inverse_rnd fl [[4, 7], [2, 6]]
           = Inr [[1351079888211149 / 2 ^ 51, - 6305039478318695 / 2 ^ 53],
                  [- 3602879701896397 / 2 ^ 54, 3602879701896397 / 2 ^ 53]]
       \<and> \<bar>1351079888211149 / 2 ^ 51 - 6 / 10 :: real\<bar> \<le> 1 / 10 ^ 6
       \<and> \<bar>- 6305039478318695 / 2 ^ 53 - (- 7 / 10) :: real\<bar> \<le> 1 / 10 ^ 6
       \<and> \<bar>- 3602879701896397 / 2 ^ 54 - (- 2 / 10) :: real\<bar> \<le> 1 / 10 ^ 6
       \<and> \<bar>3602879701896397 / 2 ^ 53 - 4 / 10 :: real\<bar> \<le> 1 / 10 ^ 6"
proof -
  have s: "inverse_m A = Inl SingularMatrix \<longleftrightarrow>
         (\<exists>i<n. \<exists>aug p. elimination_state n A i = Inr aug \<and> select_pivot n i aug = Inr p \<and>
                          \<bar>aug ! p ! i\<bar> < eps12)"
    by (rule inverse_singular_iff[OF assms])
  have r: "(\<exists>B. inverse_m A = Inr B) \<longleftrightarrow> inverse_m A \<noteq> Inl SingularMatrix"
    using inverse_ok[OF assms] by auto
  have 1: "(\<exists>B. inverse_m A = Inr B) \<longleftrightarrow>
            (\<forall>i<n. \<forall>aug p. elimination_state n A i = Inr aug \<and> select_pivot n i aug = Inr p
                   \<longrightarrow> eps12 \<le> \<bar>aug ! p ! i\<bar>)"
    unfolding r s not_less[symmetric] by blast
  have 2: "\<forall>B. inverse_m A = Inr B \<longrightarrow>
            mat n n B \<and> (\<exists>P. matmul B A = Inr P \<and> mat n n P
                              \<and> (\<forall>i<n. \<forall>j<n. P ! i ! j = (if i = j then 1 else 0)))"
  proof (intro allI impI)
    fix B assume i: "inverse_m A = Inr B"
    from inverse_ok[OF assms] i have B: "mat n n B"
      and l: "\<forall>i<n. \<forall>j<n. (\<Sum>k<n. B ! i ! k * A ! k ! j) = (if i = j then 1 else 0)"
      by auto
    from matmul_ok[OF B assms(1) assms(2) assms(2)] obtain P where P: "matmul B A = Inr P" "mat n n P"
      "\<forall>i<n. \<forall>j<n. P ! i ! j = (\<Sum>k<n. B ! i ! k * A ! k ! j)" by blast
    have "\<forall>i<n. \<forall>j<n. P ! i ! j = (if i = j then 1 else 0)" using P(3) l by simp
    then show "mat n n B \<and> (\<exists>P. matmul B A = Inr P \<and> mat n n P
                              \<and> (\<forall>i<n. \<forall>j<n. P ! i ! j = (if i = j then 1 else 0)))"
      using B P(1,2) by blast
  qed
  have 3: "inverse_m [[4, 7], [2, 6]] = Inr [[6 / 10, - 7 / 10], [- 2 / 10, 4 / 10]]"
    by (simp add: gj_defs eval_simps)
  have 4: "\<bar>1351079888211149 / 2 ^ 51 - 6 / 10 :: real\<bar> \<le> 1 / 10 ^ 6"
    "\<bar>- 6305039478318695 / 2 ^ 53 - (- 7 / 10) :: real\<bar> \<le> 1 / 10 ^ 6"
    "\<bar>- 3602879701896397 / 2 ^ 54 - (- 2 / 10) :: real\<bar> \<le> 1 / 10 ^ 6"
    "\<bar>3602879701896397 / 2 ^ 53 - 4 / 10 :: real\<bar> \<le> 1 / 10 ^ 6"
    by simp_all
  show ?thesis using 1 2 3 4 inverse_dbl_4_7 by blast
qed

theorem inverse_times_matrix_witness:
  "mat 2 2 [[4, 7], [2, 6]] \<and> (0::nat) < 2
   \<and> inverse_m [[4, 7], [2, 6]] = Inr [[6 / 10, - 7 / 10], [- 2 / 10, 4 / 10]]
   \<and> mat 2 2 [[6 / 10, - 7 / 10], [- 2 / 10, 4 / 10]]
   \<and> (\<exists>P. matmul [[6 / 10, - 7 / 10], [- 2 / 10, 4 / 10]] [[4, 7], [2, 6]] = Inr P
        \<and> P ! 0 ! 0 = 1 \<and> P ! 0 ! 1 = 0 \<and> P ! 1 ! 0 = 0 \<and> P ! 1 ! 1 = 1)"
proof -
  have A: "mat 2 2 [[4, 7], [2, 6]]" and n: "(0::nat) < 2" by (simp_all add: mat_def)
  note t = inverse_times_matrix[OF A n]
  from t have i: "inverse_m [[4, 7], [2, 6]] = Inr [[6 / 10, - 7 / 10], [- 2 / 10, 4 / 10]]"
    by blast
  from t[THEN conjunct2, THEN conjunct1, rule_format, OF i] obtain P where
    B: "mat 2 2 [[6 / 10, - 7 / 10], [- 2 / 10, 4 / 10]]" and
    P: "matmul [[6 / 10, - 7 / 10], [- 2 / 10, 4 / 10]] [[4, 7], [2, 6]] = Inr P"
      "\<forall>i<2. \<forall>j<2. P ! i ! j = (if i = j then 1 else 0)"
    by blast
  from P(2) have "P ! 0 ! 0 = 1 \<and> P ! 0 ! 1 = 0 \<and> P ! 1 ! 0 = 0 \<and> P ! 1 ! 1 = 1" by simp
  then show ?thesis using A n i B P(1) by blast
qed

section \<open>PseudoinverseEngine\<close>

lemma inverse_error:
  assumes "mat n n A" and "0 < n" and "inverse_m A = Inl e"
  shows "e = SingularMatrix"
  using inverse_ok[OF assms(1,2)] assms(3) by auto

lemma pseudoinverse_empty:
  assumes "mat m n A" and "m = 0 \<or> n = 0"
  shows "pseudoinverse A = Inr []"
proof (cases "A = []")
  case True
  then show ?thesis by (simp add: pseudoinverse_def)
next
  case False
  then have "length (A ! 0) = n" "n = 0" using assms by (auto simp: mat_def)
  then show ?thesis by (simp add: pseudoinverse_def Let_def)
qed

lemma pseudoinverse_tall:
  assumes A: "mat m n A" and n: "0 < n" and mn: "n \<le> m"
  shows "\<exists>G. mat n n G \<and> (\<forall>i<n. \<forall>j<n. G ! i ! j = (\<Sum>k<m. A ! k ! i * A ! k ! j)) \<and>
           (inverse_m G = Inl SingularMatrix \<and> pseudoinverse A = Inl SingularMatrix \<or>
            (\<exists>X P. inverse_m G = Inr X \<and> mat n n X \<and> pseudoinverse A = Inr P \<and> mat n m P \<and>
                   (\<forall>i<n. \<forall>j<m. P ! i ! j = (\<Sum>k<n. X ! i ! k * A ! j ! k))))"
proof -
  have m: "0 < m" using n mn by simp
  have hd: "A \<noteq> []" "length A = m" "length (A ! 0) = n" using A m by (auto simp: mat_def)
  from transpose_ok[OF A m] obtain AT where AT: "transpose_m A = Inr AT" "mat n m AT"
    "\<forall>i<m. \<forall>j<n. AT ! j ! i = A ! i ! j" by blast
  from multiply_ok[OF AT(2) A m] obtain G where G: "multiply AT A = Inr G" "mat n n G"
    "\<forall>i<n. \<forall>j<n. G ! i ! j = (\<Sum>k<m. AT ! i ! k * A ! k ! j)" by blast
  have Gent: "\<forall>i<n. \<forall>j<n. G ! i ! j = (\<Sum>k<m. A ! k ! i * A ! k ! j)"
    using G(3) AT(3) by simp
  have p: "pseudoinverse A = bnd (inverse_m G) (\<lambda>X. multiply X AT)"
    using hd n mn by (simp add: pseudoinverse_def Let_def AT(1) G(1))
  show ?thesis
  proof (cases "inverse_m G")
    case (Inl e)
    then have "e = SingularMatrix" using inverse_error[OF G(2) n] by blast
    then show ?thesis using Inl p G(2) Gent by auto
  next
    case (Inr X)
    then have X: "mat n n X" using inverse_ok[OF G(2) n] by auto
    from multiply_ok[OF X AT(2) n] obtain P where P: "multiply X AT = Inr P" "mat n m P"
      "\<forall>i<n. \<forall>j<m. P ! i ! j = (\<Sum>k<n. X ! i ! k * AT ! k ! j)" by blast
    have "\<forall>i<n. \<forall>j<m. P ! i ! j = (\<Sum>k<n. X ! i ! k * A ! j ! k)"
      using P(3) AT(3) by simp
    then show ?thesis using Inr p G(2) Gent X P(1,2) by auto
  qed
qed

lemma pseudoinverse_wide:
  assumes A: "mat m n A" and m: "0 < m" and mn: "m < n"
  shows "\<exists>G. mat m m G \<and> (\<forall>i<m. \<forall>j<m. G ! i ! j = (\<Sum>k<n. A ! i ! k * A ! j ! k)) \<and>
           (inverse_m G = Inl SingularMatrix \<and> pseudoinverse A = Inl SingularMatrix \<or>
            (\<exists>X P. inverse_m G = Inr X \<and> mat m m X \<and> pseudoinverse A = Inr P \<and> mat n m P \<and>
                   (\<forall>i<n. \<forall>j<m. P ! i ! j = (\<Sum>k<m. A ! k ! i * X ! k ! j))))"
proof -
  have n: "0 < n" using m mn by simp
  have hd: "A \<noteq> []" "length A = m" "length (A ! 0) = n" using A m by (auto simp: mat_def)
  from transpose_ok[OF A m] obtain AT where AT: "transpose_m A = Inr AT" "mat n m AT"
    "\<forall>i<m. \<forall>j<n. AT ! j ! i = A ! i ! j" by blast
  from multiply_ok[OF A AT(2) n] obtain G where G: "multiply A AT = Inr G" "mat m m G"
    "\<forall>i<m. \<forall>j<m. G ! i ! j = (\<Sum>k<n. A ! i ! k * AT ! k ! j)" by blast
  have Gent: "\<forall>i<m. \<forall>j<m. G ! i ! j = (\<Sum>k<n. A ! i ! k * A ! j ! k)"
    using G(3) AT(3) by simp
  have p: "pseudoinverse A = bnd (inverse_m G) (\<lambda>X. multiply AT X)"
    using hd m mn by (simp add: pseudoinverse_def Let_def AT(1) G(1))
  show ?thesis
  proof (cases "inverse_m G")
    case (Inl e)
    then have "e = SingularMatrix" using inverse_error[OF G(2) m] by blast
    then show ?thesis using Inl p G(2) Gent by auto
  next
    case (Inr X)
    then have X: "mat m m X" using inverse_ok[OF G(2) m] by auto
    from multiply_ok[OF AT(2) X m] obtain P where P: "multiply AT X = Inr P" "mat n m P"
      "\<forall>i<n. \<forall>j<m. P ! i ! j = (\<Sum>k<m. AT ! i ! k * X ! k ! j)" by blast
    have "\<forall>i<n. \<forall>j<m. P ! i ! j = (\<Sum>k<m. A ! k ! i * X ! k ! j)"
      using P(3) AT(3) by simp
    then show ?thesis using Inr p G(2) Gent X P(1,2) by auto
  qed
qed

lemma pseudoinverse_square:
  assumes A: "mat n n A" and B: "inverse_m A = Inr B"
  shows "\<exists>G. mat n n G \<and> (\<forall>i<n. \<forall>j<n. G ! i ! j = (\<Sum>k<n. A ! k ! i * A ! k ! j)) \<and>
           (inverse_m G = Inl SingularMatrix \<and> pseudoinverse A = Inl SingularMatrix \<or>
            (\<exists>X. inverse_m G = Inr X \<and> pseudoinverse A = Inr B))"
proof -
  have n: "0 < n" using A B by (auto simp: inverse_m_def mat_def Let_def split: if_splits)
  from inverse_ok[OF A n] B have mB: "mat n n B"
    and AB: "\<And>i j. i < n \<Longrightarrow> j < n \<Longrightarrow> (\<Sum>k<n. A ! i ! k * B ! k ! j) = (if i = j then 1 else 0)"
    by auto
  from pseudoinverse_tall[OF A n order_refl] obtain G where G: "mat n n G"
    "\<forall>i<n. \<forall>j<n. G ! i ! j = (\<Sum>k<n. A ! k ! i * A ! k ! j)"
    and c: "inverse_m G = Inl SingularMatrix \<and> pseudoinverse A = Inl SingularMatrix \<or>
            (\<exists>X P. inverse_m G = Inr X \<and> mat n n X \<and> pseudoinverse A = Inr P \<and> mat n n P \<and>
                   (\<forall>i<n. \<forall>j<n. P ! i ! j = (\<Sum>k<n. X ! i ! k * A ! j ! k)))"
    by blast
  from c show ?thesis
  proof
    assume "inverse_m G = Inl SingularMatrix \<and> pseudoinverse A = Inl SingularMatrix"
    then show ?thesis using G by blast
  next
    assume "\<exists>X P. inverse_m G = Inr X \<and> mat n n X \<and> pseudoinverse A = Inr P \<and> mat n n P \<and>
                   (\<forall>i<n. \<forall>j<n. P ! i ! j = (\<Sum>k<n. X ! i ! k * A ! j ! k))"
    then obtain X P where X: "inverse_m G = Inr X" and P: "pseudoinverse A = Inr P" "mat n n P"
      and Pent: "\<And>i j. i < n \<Longrightarrow> j < n \<Longrightarrow> P ! i ! j = (\<Sum>k<n. X ! i ! k * A ! j ! k)"
      by blast
    from inverse_ok[OF G(1) n] X have
      XG: "\<And>i j. i < n \<Longrightarrow> j < n \<Longrightarrow> (\<Sum>k<n. X ! i ! k * G ! k ! j) = (if i = j then 1 else 0)"
      by auto
    have PA: "(\<Sum>l<n. P ! i ! l * A ! l ! k) = (if i = k then 1 else 0)" if i: "i < n" and k: "k < n" for i k
    proof -
      have "(\<Sum>l<n. P ! i ! l * A ! l ! k) = (\<Sum>l<n. \<Sum>q<n. X ! i ! q * A ! l ! q * A ! l ! k)"
        by (rule sum.cong) (use Pent i in \<open>simp_all add: sum_distrib_right\<close>)
      also have "\<dots> = (\<Sum>q<n. \<Sum>l<n. X ! i ! q * A ! l ! q * A ! l ! k)"
        by (rule sum.swap)
      also have "\<dots> = (\<Sum>q<n. X ! i ! q * G ! q ! k)"
        by (rule sum.cong) (use G(2) k in \<open>simp_all add: sum_distrib_left mult.assoc\<close>)
      finally show ?thesis using XG[OF i k] by simp
    qed
    have "P = B"
    proof (rule mat_eqI[OF P(2) mB])
      fix i j assume i: "i < n" and j: "j < n"
      have "P ! i ! j = (\<Sum>l<n. if l = j then P ! i ! j else 0)"
        using j by (simp add: sum.delta)
      also have "\<dots> = (\<Sum>l<n. P ! i ! l * (\<Sum>k<n. A ! l ! k * B ! k ! j))"
        by (rule sum.cong) (use AB j in auto)
      also have "\<dots> = (\<Sum>l<n. \<Sum>k<n. P ! i ! l * A ! l ! k * B ! k ! j)"
        by (simp add: sum_distrib_left mult.assoc)
      also have "\<dots> = (\<Sum>k<n. \<Sum>l<n. P ! i ! l * A ! l ! k * B ! k ! j)"
        by (rule sum.swap)
      also have "\<dots> = (\<Sum>k<n. (\<Sum>l<n. P ! i ! l * A ! l ! k) * B ! k ! j)"
        by (simp add: sum_distrib_right)
      also have "\<dots> = (\<Sum>k<n. (if i = k then 1 else 0) * B ! k ! j)"
        by (rule sum.cong) (use PA i in simp_all)
      also have "\<dots> = (\<Sum>k<n. if k = i then B ! i ! j else 0)"
        by (rule sum.cong) auto
      also have "\<dots> = B ! i ! j" using i by (simp add: sum.delta)
      finally show "P ! i ! j = B ! i ! j" .
    qed
    then show ?thesis using G X P(1) by blast
  qed
qed

text \<open>The factor \<open>X\<close> of the product is the two-sided inverse of the matrix it was computed from.\<close>

lemma pseudoinverse_tall_inverse:
  assumes A: "mat m n A" and n: "0 < n" and mn: "n \<le> m"
  shows "\<exists>G. mat n n G \<and> (\<forall>i<n. \<forall>j<n. G ! i ! j = (\<Sum>k<m. A ! k ! i * A ! k ! j)) \<and>
           (inverse_m G = Inl SingularMatrix \<and> pseudoinverse A = Inl SingularMatrix \<or>
            (\<exists>X P. inverse_m G = Inr X \<and> mat n n X \<and>
                   (\<forall>i<n. \<forall>j<n. (\<Sum>k<n. X ! i ! k * G ! k ! j) = (if i = j then 1 else 0)) \<and>
                   (\<forall>i<n. \<forall>j<n. (\<Sum>k<n. G ! i ! k * X ! k ! j) = (if i = j then 1 else 0)) \<and>
                   pseudoinverse A = Inr P \<and> mat n m P \<and>
                   (\<forall>i<n. \<forall>j<m. P ! i ! j = (\<Sum>k<n. X ! i ! k * A ! j ! k))))"
proof -
  from pseudoinverse_tall[OF assms] obtain G where G: "mat n n G"
    "\<forall>i<n. \<forall>j<n. G ! i ! j = (\<Sum>k<m. A ! k ! i * A ! k ! j)"
    and c: "inverse_m G = Inl SingularMatrix \<and> pseudoinverse A = Inl SingularMatrix \<or>
            (\<exists>X P. inverse_m G = Inr X \<and> mat n n X \<and> pseudoinverse A = Inr P \<and> mat n m P \<and>
                   (\<forall>i<n. \<forall>j<m. P ! i ! j = (\<Sum>k<n. X ! i ! k * A ! j ! k)))"
    by blast
  from c show ?thesis
  proof
    assume "inverse_m G = Inl SingularMatrix \<and> pseudoinverse A = Inl SingularMatrix"
    then show ?thesis using G by blast
  next
    assume "\<exists>X P. inverse_m G = Inr X \<and> mat n n X \<and> pseudoinverse A = Inr P \<and> mat n m P \<and>
                   (\<forall>i<n. \<forall>j<m. P ! i ! j = (\<Sum>k<n. X ! i ! k * A ! j ! k))"
    then obtain X P where X: "inverse_m G = Inr X" "mat n n X" and P: "pseudoinverse A = Inr P"
      "mat n m P" "\<forall>i<n. \<forall>j<m. P ! i ! j = (\<Sum>k<n. X ! i ! k * A ! j ! k)" by blast
    from inverse_ok[OF G(1) n] X(1) have
      "\<forall>i<n. \<forall>j<n. (\<Sum>k<n. X ! i ! k * G ! k ! j) = (if i = j then 1 else 0)"
      "\<forall>i<n. \<forall>j<n. (\<Sum>k<n. G ! i ! k * X ! k ! j) = (if i = j then 1 else 0)"
      by auto
    then show ?thesis using G X P by blast
  qed
qed

lemma pseudoinverse_wide_inverse:
  assumes A: "mat m n A" and m: "0 < m" and mn: "m < n"
  shows "\<exists>G. mat m m G \<and> (\<forall>i<m. \<forall>j<m. G ! i ! j = (\<Sum>k<n. A ! i ! k * A ! j ! k)) \<and>
           (inverse_m G = Inl SingularMatrix \<and> pseudoinverse A = Inl SingularMatrix \<or>
            (\<exists>X P. inverse_m G = Inr X \<and> mat m m X \<and>
                   (\<forall>i<m. \<forall>j<m. (\<Sum>k<m. X ! i ! k * G ! k ! j) = (if i = j then 1 else 0)) \<and>
                   (\<forall>i<m. \<forall>j<m. (\<Sum>k<m. G ! i ! k * X ! k ! j) = (if i = j then 1 else 0)) \<and>
                   pseudoinverse A = Inr P \<and> mat n m P \<and>
                   (\<forall>i<n. \<forall>j<m. P ! i ! j = (\<Sum>k<m. A ! k ! i * X ! k ! j))))"
proof -
  from pseudoinverse_wide[OF assms] obtain G where G: "mat m m G"
    "\<forall>i<m. \<forall>j<m. G ! i ! j = (\<Sum>k<n. A ! i ! k * A ! j ! k)"
    and c: "inverse_m G = Inl SingularMatrix \<and> pseudoinverse A = Inl SingularMatrix \<or>
            (\<exists>X P. inverse_m G = Inr X \<and> mat m m X \<and> pseudoinverse A = Inr P \<and> mat n m P \<and>
                   (\<forall>i<n. \<forall>j<m. P ! i ! j = (\<Sum>k<m. A ! k ! i * X ! k ! j)))"
    by blast
  from c show ?thesis
  proof
    assume "inverse_m G = Inl SingularMatrix \<and> pseudoinverse A = Inl SingularMatrix"
    then show ?thesis using G by blast
  next
    assume "\<exists>X P. inverse_m G = Inr X \<and> mat m m X \<and> pseudoinverse A = Inr P \<and> mat n m P \<and>
                   (\<forall>i<n. \<forall>j<m. P ! i ! j = (\<Sum>k<m. A ! k ! i * X ! k ! j))"
    then obtain X P where X: "inverse_m G = Inr X" "mat m m X" and P: "pseudoinverse A = Inr P"
      "mat n m P" "\<forall>i<n. \<forall>j<m. P ! i ! j = (\<Sum>k<m. A ! k ! i * X ! k ! j)" by blast
    from inverse_ok[OF G(1) m] X(1) have
      "\<forall>i<m. \<forall>j<m. (\<Sum>k<m. X ! i ! k * G ! k ! j) = (if i = j then 1 else 0)"
      "\<forall>i<m. \<forall>j<m. (\<Sum>k<m. G ! i ! k * X ! k ! j) = (if i = j then 1 else 0)"
      by auto
    then show ?thesis using G X P by blast
  qed
qed

text \<open>
  Claim C6: on an m-by-n matrix with no rows or no columns \<^verbatim>\<open>pseudoinverse\<close> returns
  the empty matrix. With \<open>1 \<le> n \<le> m\<close> it inverts the n-by-n matrix \<open>G\<close> of entries
  \<open>G(i,j) = (\<Sum>k. A(k,i) * A(k,j))\<close>, the product of the transpose of \<open>A\<close> with \<open>A\<close>, by
  \<^verbatim>\<open>inverse\<close>; it fails, with SingularMatrix, exactly when that inversion fails, and
  otherwise the inversion returns a matrix \<open>X\<close> with \<open>X G = G X = 1\<close> and
  \<^verbatim>\<open>pseudoinverse\<close> returns the n-by-m product of \<open>X\<close> with the transpose of \<open>A\<close>.
  With \<open>1 \<le> m < n\<close> it does the same with the m-by-m matrix
  \<open>G(i,j) = (\<Sum>k. A(i,k) * A(j,k))\<close> and returns the product of the transpose of \<open>A\<close> with
  \<open>X\<close>.
\<close>

theorem pseudoinverse_by_shape:
  assumes "mat m n A"
  shows "(m = 0 \<or> n = 0 \<longrightarrow> pseudoinverse A = Inr [])
       \<and> (0 < n \<and> n \<le> m \<longrightarrow>
            (\<exists>G. mat n n G \<and> (\<forall>i<n. \<forall>j<n. G ! i ! j = (\<Sum>k<m. A ! k ! i * A ! k ! j)) \<and>
               (inverse_m G = Inl SingularMatrix \<and> pseudoinverse A = Inl SingularMatrix \<or>
                (\<exists>X P. inverse_m G = Inr X \<and> mat n n X \<and>
                   (\<forall>i<n. \<forall>j<n. (\<Sum>k<n. X ! i ! k * G ! k ! j) = (if i = j then 1 else 0)) \<and>
                   (\<forall>i<n. \<forall>j<n. (\<Sum>k<n. G ! i ! k * X ! k ! j) = (if i = j then 1 else 0)) \<and>
                   pseudoinverse A = Inr P \<and> mat n m P \<and>
                   (\<forall>i<n. \<forall>j<m. P ! i ! j = (\<Sum>k<n. X ! i ! k * A ! j ! k))))))
       \<and> (0 < m \<and> m < n \<longrightarrow>
            (\<exists>G. mat m m G \<and> (\<forall>i<m. \<forall>j<m. G ! i ! j = (\<Sum>k<n. A ! i ! k * A ! j ! k)) \<and>
               (inverse_m G = Inl SingularMatrix \<and> pseudoinverse A = Inl SingularMatrix \<or>
                (\<exists>X P. inverse_m G = Inr X \<and> mat m m X \<and>
                   (\<forall>i<m. \<forall>j<m. (\<Sum>k<m. X ! i ! k * G ! k ! j) = (if i = j then 1 else 0)) \<and>
                   (\<forall>i<m. \<forall>j<m. (\<Sum>k<m. G ! i ! k * X ! k ! j) = (if i = j then 1 else 0)) \<and>
                   pseudoinverse A = Inr P \<and> mat n m P \<and>
                   (\<forall>i<n. \<forall>j<m. P ! i ! j = (\<Sum>k<m. A ! k ! i * X ! k ! j))))))"
  using pseudoinverse_empty[OF assms] pseudoinverse_tall_inverse[OF assms]
    pseudoinverse_wide_inverse[OF assms]
  by blast

theorem pseudoinverse_by_shape_witness:
  "mat 2 0 [[], []] \<and> pseudoinverse [[], []] = Inr []
   \<and> mat 3 2 [[1, 2], [3, 4], [5, 6]]
   \<and> inverse_m [[35, 44], [44, 56]] = Inr [[56 / 24, - 44 / 24], [- 44 / 24, 35 / 24]]
   \<and> (\<exists>P. pseudoinverse [[1, 2], [3, 4], [5, 6]] = Inr P \<and> mat 2 3 P
        \<and> P ! 0 ! 0 = - 32 / 24 \<and> P ! 1 ! 2 = - 10 / 24)
   \<and> mat 1 3 [[1, 2, 3]]
   \<and> inverse_m [[14]] = Inr [[1 / 14]]
   \<and> (\<exists>P. pseudoinverse [[1, 2, 3]] = Inr P \<and> mat 3 1 P \<and> P ! 2 ! 0 = 3 / 14)"
proof -
  have E: "mat 2 0 [[], []]" and T: "mat 3 2 [[1, 2], [3, 4], [5, 6]]" and W: "mat 1 3 [[1, 2, 3]]"
    by (simp_all add: mat_def)
  from pseudoinverse_by_shape[OF E] have 1: "pseudoinverse [[], []] = Inr []" by simp
  have iT: "inverse_m [[35, 44], [44, 56]] = Inr [[56 / 24, - 44 / 24], [- 44 / 24, 35 / 24]]"
    by (simp add: gj_defs eval_simps)
  have iW: "inverse_m [[14]] = Inr [[1 / 14]]"
    by (simp add: gj_defs eval_simps)
  have 2: "\<exists>P. pseudoinverse [[1, 2], [3, 4], [5, 6]] = Inr P \<and> mat 2 3 P
        \<and> P ! 0 ! 0 = - 32 / 24 \<and> P ! 1 ! 2 = - 10 / 24"
  proof -
    from pseudoinverse_by_shape[OF T, THEN conjunct2, THEN conjunct1] obtain G where
      G: "mat 2 2 G"
      "\<forall>i<2. \<forall>j<2. G ! i ! j = (\<Sum>k<3. [[1, 2], [3, 4], [5, 6]] ! k ! i * [[1, 2], [3, 4], [5, 6]] ! k ! j)"
      and c: "inverse_m G = Inl SingularMatrix \<and> pseudoinverse [[1, 2], [3, 4], [5, 6]] = Inl SingularMatrix \<or>
         (\<exists>X P. inverse_m G = Inr X \<and> pseudoinverse [[1, 2], [3, 4], [5, 6]] = Inr P \<and> mat 2 3 P \<and>
            (\<forall>i<2. \<forall>j<3. P ! i ! j = (\<Sum>k<2. X ! i ! k * [[1, 2], [3, 4], [5, 6]] ! j ! k)))"
      by fastforce
    have "G = [[35, 44], [44, 56]]"
    proof (rule mat_eqI[OF G(1)])
      show "mat 2 2 [[35, 44], [44, 56]]" by (simp add: mat_def)
    next
      fix i j :: nat assume "i < 2" "j < 2"
      then have ij: "i = 0 \<or> i = 1" "j = 0 \<or> j = 1" by auto
      have "G ! i ! j = (\<Sum>k<3. [[1, 2], [3, 4], [5, 6]] ! k ! i * [[1, 2], [3, 4], [5, 6]] ! k ! j)"
        using G(2) \<open>i < 2\<close> \<open>j < 2\<close> by blast
      then show "G ! i ! j = [[35, 44], [44, 56]] ! i ! j"
        using ij by (auto simp: numeral_3_eq_3)
    qed
    with c iT obtain P where P: "pseudoinverse [[1, 2], [3, 4], [5, 6]] = Inr P" "mat 2 3 P"
      "\<forall>i<2. \<forall>j<3. P ! i ! j
         = (\<Sum>k<2. [[56 / 24, - 44 / 24], [- 44 / 24, 35 / 24]] ! i ! k * [[1, 2], [3, 4], [5, 6]] ! j ! k)"
      by auto
    from P(3) have "P ! 0 ! 0 = - 32 / 24 \<and> P ! 1 ! 2 = - 10 / 24"
      by (simp add: numeral_2_eq_2)
    then show ?thesis using P(1,2) by blast
  qed
  have 3: "\<exists>P. pseudoinverse [[1, 2, 3]] = Inr P \<and> mat 3 1 P \<and> P ! 2 ! 0 = 3 / 14"
  proof -
    from pseudoinverse_by_shape[OF W, THEN conjunct2, THEN conjunct2] obtain G where
      G: "mat 1 1 G"
      "\<forall>i<1. \<forall>j<1. G ! i ! j = (\<Sum>k<3. [[1, 2, 3]] ! i ! k * [[1, 2, 3]] ! j ! k)"
      and c: "inverse_m G = Inl SingularMatrix \<and> pseudoinverse [[1, 2, 3]] = Inl SingularMatrix \<or>
         (\<exists>X P. inverse_m G = Inr X \<and> pseudoinverse [[1, 2, 3]] = Inr P \<and> mat 3 1 P \<and>
            (\<forall>i<3. \<forall>j<1. P ! i ! j = (\<Sum>k<1. [[1, 2, 3]] ! k ! i * X ! k ! j)))"
      by fastforce
    have "G = [[14]]"
    proof (rule mat_eqI[OF G(1)])
      show "mat 1 1 [[14]]" by (simp add: mat_def)
    next
      fix i j :: nat assume "i < 1" "j < 1"
      then show "G ! i ! j = [[14]] ! i ! j"
        using G(2) by (simp add: numeral_3_eq_3)
    qed
    with c iW obtain P where P: "pseudoinverse [[1, 2, 3]] = Inr P" "mat 3 1 P"
      "\<forall>i<3. \<forall>j<1. P ! i ! j = (\<Sum>k<1. [[1, 2, 3]] ! k ! i * [[1 / 14]] ! k ! j)"
      by auto
    from P(3) have "P ! 2 ! 0 = 3 / 14" by simp
    then show ?thesis using P(1,2) by blast
  qed
  show ?thesis using E T W 1 iT iW 2 3 by blast
qed

text \<open>
  Claim C10 as the claim states it (whenever \<^verbatim>\<open>inverse(A)\<close> succeeds,
  \<^verbatim>\<open>pseudoinverse(A)\<close> equals it: exactly over exact arithmetic, within \<open>1e-6\<close> in
  doubles), refuted twice. In exact arithmetic, at the 1-by-1 matrix of entry \<open>1e-7\<close>:
  its pivot passes the \<open>1e-12\<close> test, the pivot \<open>1e-14\<close> of the product of its transpose
  with itself does not, and \<^verbatim>\<open>pseudoinverse\<close> fails where \<^verbatim>\<open>inverse\<close> returns. In
  doubles, at the matrix with rows (1597, 987), (987, 610): both inversions succeed, and
  the two results differ by more than one half in row 1, column 1.
\<close>

theorem pseudoinverse_fails_where_inverse_returns:
  "inverse_m [[1 / 10 ^ 7]] = Inr [[10 ^ 7]]
   \<and> pseudoinverse [[1 / 10 ^ 7]] = Inl SingularMatrix
   \<and> inverse_rnd fl [[1597, 987], [987, 610]]
     = Inr [[5365616743595679 / 2 ^ 43, - 8681743812998255 / 2 ^ 43],
            [- 8681743812998255 / 2 ^ 43, 877960034787121 / 2 ^ 39]]
   \<and> pseudoinverse_rnd fl [[1597, 987], [987, 610]]
     = Inr [[1278818097 / 2 ^ 21, - 4138339219 / 2 ^ 22],
            [- 2069169609 / 2 ^ 21, 1673993853 / 2 ^ 20]]
   \<and> 1 / 2 < \<bar>1673993853 / 2 ^ 20 - 877960034787121 / 2 ^ 39 :: real\<bar>"
proof -
  have "inverse_m [[1 / 10 ^ 7]] = Inr [[10 ^ 7]]
      \<and> pseudoinverse [[1 / 10 ^ 7]] = Inl SingularMatrix"
    by (simp add: pseudoinverse_def transpose_m_def multiply_def gj_defs eval_simps)
  moreover have "1 / 2 < \<bar>1673993853 / 2 ^ 20 - 877960034787121 / 2 ^ 39 :: real\<bar>"
    by simp
  ultimately show ?thesis using inverse_dbl_1597 pseudoinverse_dbl_1597 by blast
qed

text \<open>
  Claim C10, amended: when \<^verbatim>\<open>inverse(A)\<close> returns \<open>B\<close> for an n-by-n matrix \<open>A\<close>,
  \<^verbatim>\<open>pseudoinverse(A)\<close> takes the branch for rows \<open>\<ge>\<close> columns and inverts the product
  \<open>G\<close> of the transpose of \<open>A\<close> with \<open>A\<close>. In exact arithmetic, either that inversion
  fails and \<^verbatim>\<open>pseudoinverse(A)\<close> fails with SingularMatrix, or it succeeds and
  \<^verbatim>\<open>pseudoinverse(A)\<close> returns exactly \<open>B\<close>. (In doubles the two results agree only
  as far as the conditioning of \<open>A\<close> allows, and no bound such as \<open>1e-6\<close> holds for
  every \<open>A\<close>.) For the matrix with rows (4, 7), (2, 6) of the repository's test, the
  two results computed in doubles are within \<open>1e-6\<close> of each other.
\<close>

theorem pseudoinverse_of_invertible:
  assumes "mat n n A" and "inverse_m A = Inr B"
  shows "(\<exists>G. mat n n G \<and> (\<forall>i<n. \<forall>j<n. G ! i ! j = (\<Sum>k<n. A ! k ! i * A ! k ! j)) \<and>
           (inverse_m G = Inl SingularMatrix \<and> pseudoinverse A = Inl SingularMatrix \<or>
            (\<exists>X. inverse_m G = Inr X \<and> pseudoinverse A = Inr B)))
       \<and> inverse_rnd fl [[4, 7], [2, 6]]
           = Inr [[1351079888211149 / 2 ^ 51, - 6305039478318695 / 2 ^ 53],
                  [- 3602879701896397 / 2 ^ 54, 3602879701896397 / 2 ^ 53]]
       \<and> pseudoinverse_rnd fl [[4, 7], [2, 6]]
           = Inr [[1351079888211149 / 2 ^ 51, - 788129934789837 / 2 ^ 50],
                  [- 900719925474099 / 2 ^ 52, 1801439850948199 / 2 ^ 52]]
       \<and> \<bar>1351079888211149 / 2 ^ 51 - 1351079888211149 / 2 ^ 51 :: real\<bar> \<le> 1 / 10 ^ 6
       \<and> \<bar>- 788129934789837 / 2 ^ 50 - (- 6305039478318695 / 2 ^ 53) :: real\<bar> \<le> 1 / 10 ^ 6
       \<and> \<bar>- 900719925474099 / 2 ^ 52 - (- 3602879701896397 / 2 ^ 54) :: real\<bar> \<le> 1 / 10 ^ 6
       \<and> \<bar>1801439850948199 / 2 ^ 52 - 3602879701896397 / 2 ^ 53 :: real\<bar> \<le> 1 / 10 ^ 6"
proof -
  have "\<bar>1351079888211149 / 2 ^ 51 - 1351079888211149 / 2 ^ 51 :: real\<bar> \<le> 1 / 10 ^ 6"
    "\<bar>- 788129934789837 / 2 ^ 50 - (- 6305039478318695 / 2 ^ 53) :: real\<bar> \<le> 1 / 10 ^ 6"
    "\<bar>- 900719925474099 / 2 ^ 52 - (- 3602879701896397 / 2 ^ 54) :: real\<bar> \<le> 1 / 10 ^ 6"
    "\<bar>1801439850948199 / 2 ^ 52 - 3602879701896397 / 2 ^ 53 :: real\<bar> \<le> 1 / 10 ^ 6"
    by simp_all
  then show ?thesis
    using pseudoinverse_square[OF assms] inverse_dbl_4_7 pseudoinverse_dbl_4_7 by blast
qed

theorem pseudoinverse_of_invertible_witness:
  "mat 2 2 [[4, 7], [2, 6]]
   \<and> inverse_m [[4, 7], [2, 6]] = Inr [[6 / 10, - 7 / 10], [- 2 / 10, 4 / 10]]
   \<and> (pseudoinverse [[4, 7], [2, 6]] = Inl SingularMatrix
      \<or> pseudoinverse [[4, 7], [2, 6]] = Inr [[6 / 10, - 7 / 10], [- 2 / 10, 4 / 10]])
   \<and> pseudoinverse [[4, 7], [2, 6]] \<noteq> Inl SingularMatrix"
proof -
  have A: "mat 2 2 [[4, 7], [2, 6]]" by (simp add: mat_def)
  have i: "inverse_m [[4, 7], [2, 6]] = Inr [[6 / 10, - 7 / 10], [- 2 / 10, 4 / 10]]"
    by (simp add: gj_defs eval_simps)
  have p: "pseudoinverse [[4, 7], [2, 6]] \<noteq> Inl SingularMatrix"
    by (simp add: pseudoinverse_def transpose_m_def multiply_def gj_defs eval_simps)
  from pseudoinverse_of_invertible[OF A i, THEN conjunct1]
  have "pseudoinverse [[4, 7], [2, 6]] = Inl SingularMatrix
      \<or> pseudoinverse [[4, 7], [2, 6]] = Inr [[6 / 10, - 7 / 10], [- 2 / 10, 4 / 10]]"
    by blast
  then show ?thesis using A i p by blast
qed

end
